theory Spec2Isabelle
  imports Complex_Main
begin

section \<open>Apple slice game: entity lifecycle, spawn scheduler, gesture matching\<close>

text \<open>
  A shallow embedding of the simulation core of \<^verbatim>\<open>code_v2.py\<close>. A Python float
  (a time, a position) is the real number it denotes, and every float operation returns
  the exact result rounded to the nearest binary64 number, ties to even; Python ints are
  \<open>int\<close>. The strings that the program uses as closed tags (spawn edges, actions,
  speed classes, LED states) are datatypes. Values read from the hardware or the clock
  (\<^verbatim>\<open>time.monotonic()\<close>, the encoder, the accelerometer, the button, and
  \<^verbatim>\<open>random.choice\<close>) are parameters of the functions that read them. Mutation of
  \<^verbatim>\<open>self\<close> is explicit state passing; an exception is the left injection of a sum.
\<close>

subsection \<open>Float arithmetic\<close>

text \<open>Rounding to the nearest integer, a tie to the even one.\<close>

definition round_half_even :: "real \<Rightarrow> int" where
  "round_half_even v =
    (let f = \<lfloor>v\<rfloor>; d = v - real_of_int f
     in if d < 1 / 2 then f else if d > 1 / 2 then f + 1 else if even f then f else f + 1)"

text \<open>
  The exponent of the unit in the last place of a binary64 number near \<open>v\<close>: 52 below
  the exponent of \<open>v\<close>, and \<open>- 1074\<close> in the subnormal range.
\<close>

definition float_exponent :: "real \<Rightarrow> int" where
  "float_exponent v = max (\<lfloor>log 2 \<bar>v\<bar>\<rfloor> - 52) (- 1074)"

text \<open>
  The binary64 number nearest to \<open>v\<close>. Overflow to infinity and NaN have no
  counterpart here: no clock value or coordinate of the game comes near the largest float.
\<close>

definition float_round :: "real \<Rightarrow> real" where
  "float_round v =
    (if v = 0 then 0
     else real_of_int (round_half_even (v / 2 powi float_exponent v)) * 2 powi float_exponent v)"

text \<open>The float operations \<^verbatim>\<open>+\<close>, \<^verbatim>\<open>-\<close>, \<^verbatim>\<open>*\<close>, \<^verbatim>\<open>/\<close> and \<^verbatim>\<open>math.sqrt\<close>.\<close>

definition fadd :: "real \<Rightarrow> real \<Rightarrow> real" where
  "fadd v w = float_round (v + w)"

definition fsub :: "real \<Rightarrow> real \<Rightarrow> real" where
  "fsub v w = float_round (v - w)"

definition fmul :: "real \<Rightarrow> real \<Rightarrow> real" where
  "fmul v w = float_round (v * w)"

definition fdiv :: "real \<Rightarrow> real \<Rightarrow> real" where
  "fdiv v w = float_round (v / w)"

definition fsqrt :: "real \<Rightarrow> real" where
  "fsqrt v = float_round (sqrt v)"

text \<open>The conversion of an int that meets a float in an operation, and \<^verbatim>\<open>float(i)\<close>.\<close>

definition float_of_int :: "int \<Rightarrow> real" where
  "float_of_int i = float_round (real_of_int i)"

text \<open>The true division \<^verbatim>\<open>i / j\<close> of two ints: the quotient, rounded once.\<close>

definition int_true_divide :: "int \<Rightarrow> int \<Rightarrow> real" where
  "int_true_divide i j = float_round (real_of_int i / real_of_int j)"

subsection \<open>Game constants\<close>

datatype py_error = TypeError | ZeroDivisionError | IndexError

datatype spawn_edge = Top | Bottom | Left | Right

datatype action = Forward | Backward | Rotate_left | Rotate_right

datatype speed_class = Slow | Medium | Fast | Very_fast | Ultra

datatype difficulty = Easy | Medium_difficulty | Hard

definition OLED_WIDTH :: int where
  "OLED_WIDTH = 128"

definition OLED_HEIGHT :: int where
  "OLED_HEIGHT = 64"

definition APPLE_SIZE :: "int \<times> int" where
  "APPLE_SIZE = (8, 8)"

definition SCREEN_CENTER :: "int \<times> int" where
  "SCREEN_CENTER = (63, 35)"

record region =
  x_min :: int
  x_max :: int
  y_min :: int
  y_max :: int

definition INVALID_REGION :: region where
  "INVALID_REGION = \<lparr>x_min = 45, x_max = 81, y_min = 27, y_max = 45\<rparr>"

definition CUT_TIME_LIMIT :: real where
  "CUT_TIME_LIMIT = 4"

text \<open>The literal \<^verbatim>\<open>0.2\<close> is the float nearest to 2/10.\<close>

definition RESPONSE_DELAY :: real where
  "RESPONSE_DELAY = float_round (2 / 10)"

fun SPAWN_POSITIONS :: "spawn_edge \<Rightarrow> int \<times> int" where
  "SPAWN_POSITIONS Top = (63, 0)"
| "SPAWN_POSITIONS Bottom = (63, 63)"
| "SPAWN_POSITIONS Left = (0, 31)"
| "SPAWN_POSITIONS Right = (127, 31)"

fun SPEEDS :: "speed_class \<Rightarrow> int" where
  "SPEEDS Slow = 20"
| "SPEEDS Medium = 35"
| "SPEEDS Fast = 50"
| "SPEEDS Very_fast = 70"
| "SPEEDS Ultra = 90"

text \<open>A level is a dictionary with the keys name, speed, apples, time and difficulty.\<close>

record level =
  lv_name :: string
  lv_speed :: speed_class
  lv_apples :: int
  lv_time :: int
  lv_difficulty :: difficulty

definition LEVELS :: "level list" where
  "LEVELS =
   [\<lparr>lv_name = ''E1:EZ 10A 60S'', lv_speed = Slow, lv_apples = 10, lv_time = 60, lv_difficulty = Easy\<rparr>,
    \<lparr>lv_name = ''E2:EZ 15A 55S'', lv_speed = Slow, lv_apples = 15, lv_time = 55, lv_difficulty = Easy\<rparr>,
    \<lparr>lv_name = ''E3:EZ 20A 50S'', lv_speed = Medium, lv_apples = 20, lv_time = 50, lv_difficulty = Easy\<rparr>,
    \<lparr>lv_name = ''E4:EZ 25A 45S'', lv_speed = Fast, lv_apples = 25, lv_time = 45, lv_difficulty = Easy\<rparr>,
    \<lparr>lv_name = ''M1:MD 20A 45S'', lv_speed = Medium, lv_apples = 20, lv_time = 45,
      lv_difficulty = Medium_difficulty\<rparr>,
    \<lparr>lv_name = ''M2:MD 25A 40S'', lv_speed = Fast, lv_apples = 25, lv_time = 40,
      lv_difficulty = Medium_difficulty\<rparr>,
    \<lparr>lv_name = ''M3:MD 30A 35S'', lv_speed = Very_fast, lv_apples = 30, lv_time = 35,
      lv_difficulty = Medium_difficulty\<rparr>,
    \<lparr>lv_name = ''H1:HD 25A 30S'', lv_speed = Fast, lv_apples = 25, lv_time = 30, lv_difficulty = Hard\<rparr>,
    \<lparr>lv_name = ''H2:HD 30A 25S'', lv_speed = Very_fast, lv_apples = 30, lv_time = 25, lv_difficulty = Hard\<rparr>,
    \<lparr>lv_name = ''H3:HD 35A 20S'', lv_speed = Ultra, lv_apples = 35, lv_time = 20, lv_difficulty = Hard\<rparr>]"

fun DIFFICULTY_LEVELS :: "difficulty \<Rightarrow> int" where
  "DIFFICULTY_LEVELS Easy = 0"
| "DIFFICULTY_LEVELS Medium_difficulty = 4"
| "DIFFICULTY_LEVELS Hard = 7"

definition DIFFICULTY_NAMES :: "difficulty list" where
  "DIFFICULTY_NAMES = [Easy, Medium_difficulty, Hard]"

subsection \<open>class Apple\<close>

text \<open>
  The attributes \<^verbatim>\<open>x\<close> and \<^verbatim>\<open>y\<close> are the fields \<open>pos_x\<close> and \<open>pos_y\<close>.
  \<^verbatim>\<open>valid_zone_entry_time\<close> is \<^verbatim>\<open>None\<close> or a float.
\<close>

record apple =
  spawn_direction :: spawn_edge
  speed :: int
  start_time :: real
  sliced :: bool
  entered_valid_zone :: bool
  valid_zone_entry_time :: "real option"
  expired :: bool
  start_pos :: "int \<times> int"
  target_pos :: "int \<times> int"
  direction :: "real \<times> real"
  pos_x :: real
  pos_y :: real
  expected_action :: "action option"

text \<open>
  \<^verbatim>\<open>Apple._get_expected_action\<close>. The final \<^verbatim>\<open>return None\<close> of the source is reached
  for no key of \<^verbatim>\<open>SPAWN_POSITIONS\<close>.
\<close>

fun get_expected_action :: "spawn_edge \<Rightarrow> action option" where
  "get_expected_action Top = Some Forward"
| "get_expected_action Bottom = Some Backward"
| "get_expected_action Left = Some Rotate_left"
| "get_expected_action Right = Some Rotate_right"

text \<open>\<^verbatim>\<open>Apple.__init__(spawn_direction, speed, start_time)\<close>.\<close>

definition Apple :: "spawn_edge \<Rightarrow> int \<Rightarrow> real \<Rightarrow> apple" where
  "Apple spawn_dir spd start =
    (let sp = SPAWN_POSITIONS spawn_dir;
         tp = SCREEN_CENTER;
         dx = fst tp - fst sp;
         dy = snd tp - snd sp;
         distance = fsqrt (float_of_int (dx * dx + dy * dy))
     in \<lparr>spawn_direction = spawn_dir,
         speed = spd,
         start_time = start,
         sliced = False,
         entered_valid_zone = False,
         valid_zone_entry_time = None,
         expired = False,
         start_pos = sp,
         target_pos = tp,
         direction = (if distance > 0
                      then (fdiv (float_of_int dx) distance, fdiv (float_of_int dy) distance)
                      else (0, 0)),
         pos_x = float_of_int (fst sp),
         pos_y = float_of_int (snd sp),
         expected_action = get_expected_action spawn_dir\<rparr>)"

text \<open>\<^verbatim>\<open>Apple._is_in_invalid_region\<close> and \<^verbatim>\<open>Apple.is_in_valid_zone\<close>.\<close>

definition is_in_invalid_region :: "apple \<Rightarrow> bool" where
  "is_in_invalid_region a \<longleftrightarrow>
     (real_of_int (x_min INVALID_REGION) \<le> pos_x a \<and> pos_x a \<le> real_of_int (x_max INVALID_REGION)) \<and>
     (real_of_int (y_min INVALID_REGION) \<le> pos_y a \<and> pos_y a \<le> real_of_int (y_max INVALID_REGION))"

definition is_in_valid_zone :: "apple \<Rightarrow> bool" where
  "is_in_valid_zone a \<longleftrightarrow> \<not> is_in_invalid_region a"

text \<open>
  The position assignment of \<^verbatim>\<open>Apple.update\<close> (the lines from \<^verbatim>\<open>elapsed = ...\<close>
  to \<^verbatim>\<open>self.y = ...\<close>).
\<close>

definition move :: "apple \<Rightarrow> real \<Rightarrow> apple" where
  "move a current_time =
    (let elapsed = fsub current_time (start_time a);
         distance = fmul (float_of_int (speed a)) elapsed
     in a\<lparr>pos_x := fadd (float_of_int (fst (start_pos a))) (fmul (fst (direction a)) distance),
          pos_y := fadd (float_of_int (snd (start_pos a))) (fmul (snd (direction a)) distance)\<rparr>)"

text \<open>The last test of \<^verbatim>\<open>Apple.update\<close>: the apple has left the padded screen.\<close>

definition off_screen :: "apple \<Rightarrow> bool" where
  "off_screen a \<longleftrightarrow>
     pos_x a < - real_of_int (fst APPLE_SIZE) \<or> pos_x a > real_of_int (OLED_WIDTH + fst APPLE_SIZE) \<or>
     pos_y a < - real_of_int (snd APPLE_SIZE) \<or> pos_y a > real_of_int (OLED_HEIGHT + snd APPLE_SIZE)"

text \<open>
  \<^verbatim>\<open>Apple.update(current_time)\<close>. The subtraction
  \<^verbatim>\<open>current_time - self.valid_zone_entry_time\<close> raises \<^verbatim>\<open>TypeError\<close> when the entry time
  is \<^verbatim>\<open>None\<close>.
\<close>

definition update :: "apple \<Rightarrow> real \<Rightarrow> py_error + apple" where
  "update a current_time =
    (if sliced a \<or> expired a then Inr a
     else
       let a1 = move a current_time;
           a2 = (if \<not> entered_valid_zone a1
                 then (if \<not> is_in_invalid_region a1
                       then a1\<lparr>entered_valid_zone := True, valid_zone_entry_time := Some current_time\<rparr>
                       else a1)
                 else a1)
       in if entered_valid_zone a2
          then (case valid_zone_entry_time a2 of
                  None \<Rightarrow> Inl TypeError
                | Some entry \<Rightarrow>
                    let a3 = (if fsub current_time entry > CUT_TIME_LIMIT
                              then a2\<lparr>expired := True\<rparr> else a2)
                    in Inr (if off_screen a3 then a3\<lparr>expired := True\<rparr> else a3))
          else Inr (if off_screen a2 then a2\<lparr>expired := True\<rparr> else a2))"

text \<open>Successive calls of \<^verbatim>\<open>update\<close> on one apple, at the given times.\<close>

fun update_seq :: "apple \<Rightarrow> real list \<Rightarrow> py_error + apple" where
  "update_seq a [] = Inr a"
| "update_seq a (t # ts) = (case update a t of Inl e \<Rightarrow> Inl e | Inr a' \<Rightarrow> update_seq a' ts)"

subsection \<open>class Game\<close>

datatype game_state = MENU | PLAYING | GAME_OVER | PAUSED

datatype led = Led_idle | Led_playing | Led_success | Led_error | Led_warning | Led_game_over

text \<open>
  The attributes of \<^verbatim>\<open>Game\<close> that the modelled methods read or write. The two attributes
  \<^verbatim>\<open>_game_over_button_last_state\<close> and \<^verbatim>\<open>_game_over_button_press_time\<close> are created
  on the first call of \<^verbatim>\<open>_update_game_over\<close>; \<open>None\<close> stands for an attribute that
  does not exist yet.
\<close>

record game =
  state :: game_state
  current_difficulty_index :: int
  current_level_index :: int
  current_level :: "level option"
  apples :: "apple list"
  sliced_count :: int
  game_start_time :: real
  last_apple_spawn_time :: real
  apple_spawn_interval :: real
  pause_start_time :: real
  total_pause_time :: real
  last_encoder_position :: int
  last_encoder_action_time :: real
  last_accel_y :: real
  last_accel_action_time :: real
  encoder_action_pending :: "(action \<times> real) option"
  accel_action_pending :: "(action \<times> real) option"
  led_state :: led
  last_led_update :: real
  game_over_button_last_state :: "bool option"
  game_over_button_press_time :: "real option"

text \<open>Python list indexing: a negative index counts from the end of the list.\<close>

definition py_index :: "'a list \<Rightarrow> int \<Rightarrow> py_error + 'a" where
  "py_index xs i =
    (if 0 \<le> i \<and> i < int (length xs) then Inr (xs ! nat i)
     else if i < 0 \<and> - int (length xs) \<le> i then Inr (xs ! nat (int (length xs) + i))
     else Inl IndexError)"

text \<open>Python's \<^verbatim>\<open>int(v)\<close> on a float truncates towards zero.\<close>

definition py_int :: "real \<Rightarrow> int" where
  "py_int v = (if 0 \<le> v then \<lfloor>v\<rfloor> else \<lceil>v\<rceil>)"

text \<open>
  \<^verbatim>\<open>Game._update_level_index_from_difficulty\<close>. Every lower-cased name of
  \<^verbatim>\<open>DIFFICULTY_NAMES\<close> is a key of \<^verbatim>\<open>DIFFICULTY_LEVELS\<close>.
\<close>

definition update_level_index_from_difficulty :: "game \<Rightarrow> py_error + game" where
  "update_level_index_from_difficulty g =
    (if current_difficulty_index g < int (length DIFFICULTY_NAMES)
     then (case py_index DIFFICULTY_NAMES (current_difficulty_index g) of
             Inl e \<Rightarrow> Inl e
           | Inr difficulty_name \<Rightarrow> Inr (g\<lparr>current_level_index := DIFFICULTY_LEVELS difficulty_name\<rparr>))
     else Inr g)"

text \<open>
  The attribute assignments of \<^verbatim>\<open>Game.__init__\<close>; \<open>now\<close> is the value of
  \<^verbatim>\<open>time.monotonic()\<close>. The encoder position is reset to 0 on every path.
\<close>

definition Game_attributes :: "real \<Rightarrow> game" where
  "Game_attributes now =
      \<lparr>state = MENU,
       current_difficulty_index = 0,
       current_level_index = 0,
       current_level = None,
       apples = [],
       sliced_count = 0,
       game_start_time = 0,
       last_apple_spawn_time = 0,
       apple_spawn_interval = 0,
       pause_start_time = 0,
       total_pause_time = 0,
       last_encoder_position = 0,
       last_encoder_action_time = 0,
       last_accel_y = 0,
       last_accel_action_time = 0,
       encoder_action_pending = None,
       accel_action_pending = None,
       led_state = Led_idle,
       last_led_update = now,
       game_over_button_last_state = None,
       game_over_button_press_time = None\<rparr>"

text \<open>\<^verbatim>\<open>Game.__init__\<close>: the assignments and the call that sets the level index.\<close>

definition Game :: "real \<Rightarrow> py_error + game" where
  "Game now = update_level_index_from_difficulty (Game_attributes now)"

text \<open>
  \<^verbatim>\<open>Game.start_level(level_index)\<close>; \<open>now\<close> is the value of \<^verbatim>\<open>time.monotonic()\<close>.
  \<^verbatim>\<open>_play_sound\<close> writes to the buzzer only, changes no attribute of the game and
  swallows its own exceptions; it has no counterpart here.
\<close>

definition start_level :: "game \<Rightarrow> int \<Rightarrow> real \<Rightarrow> py_error + (bool \<times> game)" where
  "start_level g level_index now =
    (if level_index \<ge> int (length LEVELS) then Inr (False, g)
     else
       case py_index LEVELS level_index of
         Inl e \<Rightarrow> Inl e
       | Inr lv \<Rightarrow>
           let total_apples = lv_apples lv;
               total_time = lv_time lv
           in Inr (True,
                g\<lparr>current_level_index := level_index,
                  current_level := Some lv,
                  apples := [],
                  sliced_count := 0,
                  game_start_time := now,
                  last_apple_spawn_time := now,
                  total_pause_time := 0,
                  apple_spawn_interval :=
                    (if total_apples > 0 then int_true_divide total_time total_apples else 999),
                  state := PLAYING,
                  led_state := Led_playing\<rparr>))"

text \<open>
  \<^verbatim>\<open>Game.spawn_apple_at_time(spawn_time)\<close>; \<open>edge\<close> is the outcome of
  \<^verbatim>\<open>random.choice\<close>.
\<close>

definition spawn_apple_at_time :: "game \<Rightarrow> spawn_edge \<Rightarrow> real \<Rightarrow> game" where
  "spawn_apple_at_time g edge spawn_time =
    (case current_level g of
       None \<Rightarrow> g
     | Some lv \<Rightarrow> g\<lparr>apples := apples g @ [Apple edge (SPEEDS (lv_speed lv)) spawn_time]\<rparr>)"

text \<open>
  The \<^verbatim>\<open>while len(self.apples) < apples_to_spawn\<close> loop of \<^verbatim>\<open>_update_playing\<close>.
  \<open>choice n\<close> is the edge that \<^verbatim>\<open>random.choice\<close> returns when the apple of index
  \<open>n\<close> is spawned. The loop does not end when there is no current level, since then
  nothing is appended: the result is \<open>None\<close>.
\<close>

partial_function (option) spawn_loop :: "(nat \<Rightarrow> spawn_edge) \<Rightarrow> int \<Rightarrow> game \<Rightarrow> game option" where
  "spawn_loop choice apples_to_spawn g =
    (if int (length (apples g)) < apples_to_spawn
     then spawn_loop choice apples_to_spawn
            (spawn_apple_at_time g (choice (length (apples g)))
               (fadd (game_start_time g)
                  (fmul (float_of_int (int (length (apples g)))) (apple_spawn_interval g))))
     else Some g)"

text \<open>The \<^verbatim>\<open>for apple in self.apples: apple.update(...)\<close> loop.\<close>

fun update_all :: "apple list \<Rightarrow> real \<Rightarrow> py_error + apple list" where
  "update_all [] t = Inr []"
| "update_all (a # as) t =
    (case update a t of
       Inl e \<Rightarrow> Inl e
     | Inr a' \<Rightarrow> (case update_all as t of Inl e \<Rightarrow> Inl e | Inr as' \<Rightarrow> Inr (a' # as')))"

text \<open>The first three assignments of \<^verbatim>\<open>_update_playing\<close>.\<close>

definition adjusted_time :: "game \<Rightarrow> real \<Rightarrow> real" where
  "adjusted_time g current_time = fsub current_time (total_pause_time g)"

definition elapsed_time :: "game \<Rightarrow> real \<Rightarrow> real" where
  "elapsed_time g current_time = fsub (adjusted_time g current_time) (game_start_time g)"

definition remaining_time :: "game \<Rightarrow> real \<Rightarrow> py_error + real" where
  "remaining_time g current_time =
    (case current_level g of
       None \<Rightarrow> Inl TypeError
     | Some lv \<Rightarrow> Inr (fsub (float_of_int (lv_time lv)) (elapsed_time g current_time)))"

text \<open>
  \<^verbatim>\<open>Game._update_playing(current_time)\<close>. The outer \<open>option\<close> is \<open>None\<close> when the
  spawn loop does not end. Subscripting a missing level raises \<^verbatim>\<open>TypeError\<close>, a zero
  spawn interval \<^verbatim>\<open>ZeroDivisionError\<close>.
\<close>

definition update_playing :: "(nat \<Rightarrow> spawn_edge) \<Rightarrow> game \<Rightarrow> real \<Rightarrow> (py_error + game) option" where
  "update_playing choice g current_time =
    (case remaining_time g current_time of
       Inl e \<Rightarrow> Some (Inl e)
     | Inr remaining \<Rightarrow>
         if remaining \<le> 0 then Some (Inr (g\<lparr>state := GAME_OVER, led_state := Led_game_over\<rparr>))
         else if apple_spawn_interval g = 0 then Some (Inl ZeroDivisionError)
         else
           case current_level g of
             None \<Rightarrow> Some (Inl TypeError)
           | Some lv \<Rightarrow>
               let apples_to_spawn =
                     py_int (fdiv (elapsed_time g current_time) (apple_spawn_interval g)) + 1;
                   apples_to_spawn = min apples_to_spawn (lv_apples lv)
               in case spawn_loop choice apples_to_spawn g of
                    None \<Rightarrow> None
                  | Some g1 \<Rightarrow>
                      (case update_all (apples g1) (adjusted_time g current_time) of
                         Inl e \<Rightarrow> Some (Inl e)
                       | Inr as \<Rightarrow>
                           Some (Inr (if remaining \<le> 10
                                      then g1\<lparr>apples := as, led_state := Led_warning\<rparr>
                                      else g1\<lparr>apples := as\<rparr>))))"

text \<open>Successive calls of \<^verbatim>\<open>_update_playing\<close> at the given clock values.\<close>

fun play_ticks :: "(nat \<Rightarrow> spawn_edge) \<Rightarrow> game \<Rightarrow> real list \<Rightarrow> (py_error + game) option" where
  "play_ticks choice g [] = Some (Inr g)"
| "play_ticks choice g (t # ts) =
    (case update_playing choice g t of
       None \<Rightarrow> None
     | Some (Inl e) \<Rightarrow> Some (Inl e)
     | Some (Inr g') \<Rightarrow> play_ticks choice g' ts)"

text \<open>
  The countdown of \<^verbatim>\<open>Game._draw_playing\<close>: the value \<^verbatim>\<open>remaining\<close> from which the
  text and the dots are drawn. \<open>None\<close> when there is no current level (no countdown is
  drawn).
\<close>

definition draw_playing_remaining :: "game \<Rightarrow> real \<Rightarrow> real option" where
  "draw_playing_remaining g current_time =
    (case current_level g of
       None \<Rightarrow> None
     | Some lv \<Rightarrow>
         let adjusted_current_time = fsub current_time (total_pause_time g);
             elapsed = fsub adjusted_current_time (game_start_time g);
             remaining = max 0 (fsub (float_of_int (lv_time lv)) elapsed)
         in Some remaining)"

text \<open>
  \<^verbatim>\<open>Game._update_game_over\<close>; \<open>current_time\<close> is \<^verbatim>\<open>time.monotonic()\<close> and
  \<open>button_current\<close> the debounced button.
\<close>

definition update_game_over :: "game \<Rightarrow> real \<Rightarrow> bool \<Rightarrow> py_error + game" where
  "update_game_over g current_time button_current =
    (let last_state = (case game_over_button_last_state g of None \<Rightarrow> False | Some b \<Rightarrow> b);
         press_time = (case game_over_button_press_time g of None \<Rightarrow> 0 | Some t \<Rightarrow> t);
         press_time = (if button_current \<and> \<not> last_state then current_time else press_time);
         g1 = g\<lparr>game_over_button_last_state := Some last_state,
                game_over_button_press_time := Some press_time\<rparr>;
         r = (if button_current \<and> press_time > 0 \<and>
                 fsub current_time press_time > float_round (2 / 10)
              then (case update_level_index_from_difficulty
                           (g1\<lparr>state := MENU, current_level := None, current_difficulty_index := 0\<rparr>) of
                      Inl e \<Rightarrow> Inl e
                    | Inr g2 \<Rightarrow> Inr (g2\<lparr>led_state := Led_idle, game_over_button_press_time := Some 0\<rparr>))
              else Inr g1)
     in case r of
          Inl e \<Rightarrow> Inl e
        | Inr g3 \<Rightarrow>
            let g4 = (if \<not> button_current \<and> last_state
                      then g3\<lparr>game_over_button_press_time := Some 0\<rparr> else g3)
            in Inr (g4\<lparr>game_over_button_last_state := Some button_current\<rparr>))"

text \<open>
  The loop of \<^verbatim>\<open>Game._check_cut_action\<close> over \<^verbatim>\<open>self.apples\<close>: the list after the loop
  and the flag \<^verbatim>\<open>sliced_any\<close>. A \<^verbatim>\<open>continue\<close> goes on with the rest of the list, the
  \<^verbatim>\<open>break\<close> leaves the rest as it is.
\<close>

fun cut_loop :: "real \<Rightarrow> action \<Rightarrow> apple list \<Rightarrow> apple list \<times> bool" where
  "cut_loop adjusted_current_time act [] = ([], False)"
| "cut_loop adjusted_current_time act (a # as) =
    (let continue = (case cut_loop adjusted_current_time act as of (as', b) \<Rightarrow> (a # as', b))
     in if sliced a \<or> expired a then continue
        else if \<not> entered_valid_zone a then continue
        else if \<not> is_in_valid_zone a then continue
        else if expected_action a = Some act
        then (case valid_zone_entry_time a of
                None \<Rightarrow> continue
              | Some entry \<Rightarrow>
                  let time_since_entry = fsub adjusted_current_time entry
                  in if 0 \<le> time_since_entry \<and> time_since_entry \<le> CUT_TIME_LIMIT
                     then (a\<lparr>sliced := True\<rparr> # as, True)
                     else continue)
        else continue)"

text \<open>
  \<^verbatim>\<open>Game._check_cut_action(action)\<close>; \<open>current_time\<close> is \<^verbatim>\<open>time.monotonic()\<close>. The
  assignments made just before the \<^verbatim>\<open>break\<close> are made here when \<^verbatim>\<open>sliced_any\<close> is set.
  No statement of the method can raise.
\<close>

definition check_cut_action :: "game \<Rightarrow> real \<Rightarrow> action \<Rightarrow> game" where
  "check_cut_action g current_time act =
    (let adjusted_current_time = fsub current_time (total_pause_time g);
         (as, sliced_any) = cut_loop adjusted_current_time act (apples g);
         g1 = (if sliced_any
               then g\<lparr>apples := as, sliced_count := sliced_count g + 1,
                      led_state := Led_success, last_led_update := current_time\<rparr>
               else g\<lparr>apples := as\<rparr>)
     in if \<not> sliced_any \<and> state g1 = PLAYING
        then g1\<lparr>led_state := Led_error, last_led_update := current_time\<rparr>
        else g1)"

subsection \<open>Game._update_inputs\<close>

text \<open>What one call of \<^verbatim>\<open>_update_inputs\<close> reads from the hardware and the clock.\<close>

datatype switch_read = No_switch | Switch_raises | Switch_value bool

record readings =
  encoder_position :: "int option"
  power_switch :: switch_read
  acceleration :: "(real \<times> real \<times> real) option"
  cut_time_encoder :: real
  cut_time_accel :: real

text \<open>
  The encoder block: a read of the position that raises falls back to the last position.
  \<open>encoder_available\<close> is the module constant \<^verbatim>\<open>ENCODER_AVAILABLE\<close>.
\<close>

definition encoder_detect :: "bool \<Rightarrow> game \<Rightarrow> real \<Rightarrow> int option \<Rightarrow> game" where
  "encoder_detect encoder_available g current_time position_read =
    (if state g = PLAYING \<and> encoder_available
     then
       let encoder_pos = (case position_read of None \<Rightarrow> last_encoder_position g | Some p \<Rightarrow> p)
       in if encoder_pos \<noteq> last_encoder_position g
          then
            let diff = encoder_pos - last_encoder_position g
            in if \<bar>diff\<bar> \<le> 100 \<and> diff \<noteq> 0
               then g\<lparr>encoder_action_pending :=
                        Some (if diff > 0 then Rotate_right else Rotate_left,
                              fadd current_time RESPONSE_DELAY),
                      last_encoder_position := encoder_pos\<rparr>
               else g
          else g
     else g)"

text \<open>
  The pending encoder action: the state after the block and the action given to
  \<^verbatim>\<open>_check_cut_action\<close>, if any.
\<close>

definition encoder_fire :: "game \<Rightarrow> real \<Rightarrow> real \<Rightarrow> game \<times> action option" where
  "encoder_fire g current_time cut_time =
    (case encoder_action_pending g of
       None \<Rightarrow> (g, None)
     | Some (act, action_time) \<Rightarrow>
         if current_time \<ge> action_time
         then (if state g = PLAYING
               then ((check_cut_action g cut_time act)\<lparr>encoder_action_pending := None\<rparr>, Some act)
               else (g\<lparr>encoder_action_pending := None\<rparr>, None))
         else (g, None))"

text \<open>
  The accelerometer sample (\<^verbatim>\<open>if current_time - self.last_accel_action_time > 0.1\<close>); a
  read that raises leaves the state as it is.
\<close>

definition accel_detect :: "game \<Rightarrow> real \<Rightarrow> (real \<times> real \<times> real) option \<Rightarrow> game" where
  "accel_detect g current_time accel_read =
    (if fsub current_time (last_accel_action_time g) > float_round (1 / 10)
     then (case accel_read of
             None \<Rightarrow> g
           | Some (ax, ay, az) \<Rightarrow>
               let accel_threshold = 2;
                   g1 = (if ay > accel_threshold \<and> last_accel_y g \<le> accel_threshold
                         then g\<lparr>accel_action_pending := Some (Forward, fadd current_time RESPONSE_DELAY)\<rparr>
                         else if ay < - accel_threshold \<and> last_accel_y g \<ge> - accel_threshold
                         then g\<lparr>accel_action_pending := Some (Backward, fadd current_time RESPONSE_DELAY)\<rparr>
                         else g)
               in g1\<lparr>last_accel_y := ay, last_accel_action_time := current_time\<rparr>)
     else g)"

text \<open>
  The pending accelerometer action: the state after the block and the action given to
  \<^verbatim>\<open>_check_cut_action\<close>, if any.
\<close>

definition accel_fire :: "game \<Rightarrow> real \<Rightarrow> real \<Rightarrow> game \<times> action option" where
  "accel_fire g current_time cut_time =
    (case accel_action_pending g of
       None \<Rightarrow> (g, None)
     | Some (act, action_time) \<Rightarrow>
         if current_time \<ge> action_time
         then (if state g = PLAYING
               then ((check_cut_action g cut_time act)\<lparr>accel_action_pending := None\<rparr>, Some act)
               else (g\<lparr>accel_action_pending := None\<rparr>, None))
         else (g, None))"

text \<open>The accelerometer part of \<^verbatim>\<open>_update_inputs\<close>: the sample, then the pending action.\<close>

definition accel_input :: "game \<Rightarrow> real \<Rightarrow> (real \<times> real \<times> real) option \<Rightarrow> real \<Rightarrow> game \<times> action option" where
  "accel_input g current_time accel_read cut_time =
     accel_fire (accel_detect g current_time accel_read) current_time cut_time"

text \<open>
  \<^verbatim>\<open>Game._update_inputs(current_time)\<close>: the state after the call and the actions given to
  \<^verbatim>\<open>_check_cut_action\<close>, in order. A power switch that reads HIGH ends the call before
  the accelerometer part.
\<close>

definition update_inputs :: "bool \<Rightarrow> game \<Rightarrow> real \<Rightarrow> readings \<Rightarrow> game \<times> action list" where
  "update_inputs encoder_available g current_time r =
    (let g1 = encoder_detect encoder_available g current_time (encoder_position r);
         (g2, fired1) = encoder_fire g1 current_time (cut_time_encoder r)
     in if power_switch r = Switch_value True then (g2, (case fired1 of None \<Rightarrow> [] | Some a \<Rightarrow> [a]))
        else
          let (g3, fired2) = accel_input g2 current_time (acceleration r) (cut_time_accel r)
          in (g3, (case fired1 of None \<Rightarrow> [] | Some a \<Rightarrow> [a]) @ (case fired2 of None \<Rightarrow> [] | Some a \<Rightarrow> [a])))"

text \<open>
  Successive calls of the accelerometer part at the given ticks (clock, sample, clock of
  the cut): the final state and the log of the ticks at which an action was given to
  \<^verbatim>\<open>_check_cut_action\<close>.
\<close>

fun accel_ticks :: "game \<Rightarrow> (real \<times> (real \<times> real \<times> real) option \<times> real) list \<Rightarrow> game \<times> (real \<times> action) list" where
  "accel_ticks g [] = (g, [])"
| "accel_ticks g ((t, accel_read, cut_time) # ticks) =
    (case accel_input g t accel_read cut_time of
       (g1, fired) \<Rightarrow>
         (case accel_ticks g1 ticks of
            (g2, fired_log) \<Rightarrow> (g2, (case fired of None \<Rightarrow> [] | Some a \<Rightarrow> [(t, a)]) @ fired_log)))"

subsection \<open>Predicates of the properties\<close>

text \<open>
  An apple qualifies for an action at the pause-adjusted time \<open>adjusted_now\<close>: it is
  neither sliced nor expired, has entered the valid zone, is not inside the forbidden
  rectangle, expects the action, and its zone-entry time is at most the cut-time limit
  before \<open>adjusted_now\<close>.
\<close>

definition qualifies :: "real \<Rightarrow> action \<Rightarrow> apple \<Rightarrow> bool" where
  "qualifies adjusted_now act a \<longleftrightarrow>
     \<not> sliced a \<and> \<not> expired a \<and> entered_valid_zone a \<and> \<not> is_in_invalid_region a \<and>
     expected_action a = Some act \<and>
     (case valid_zone_entry_time a of
        None \<Rightarrow> False
      | Some entry \<Rightarrow>
          0 \<le> fsub adjusted_now entry \<and> fsub adjusted_now entry \<le> CUT_TIME_LIMIT)"

text \<open>Two apples move on the same path: \<^verbatim>\<open>update\<close> computes the same position for both.\<close>

definition same_path :: "apple \<Rightarrow> apple \<Rightarrow> bool" where
  "same_path a b \<longleftrightarrow>
     start_pos a = start_pos b \<and> direction a = direction b \<and> speed a = speed b \<and>
     start_time a = start_time b"

text \<open>An apple that is alive and has not entered the valid zone yet.\<close>

definition waiting :: "apple \<Rightarrow> bool" where
  "waiting a \<longleftrightarrow>
     \<not> sliced a \<and> \<not> expired a \<and> \<not> entered_valid_zone a \<and> valid_zone_entry_time a = None"

text \<open>An apple whose zone flag is set has an entry time: \<^verbatim>\<open>update\<close> does not raise on it.\<close>

definition apple_ok :: "apple \<Rightarrow> bool" where
  "apple_ok a \<longleftrightarrow> (entered_valid_zone a \<longrightarrow> valid_zone_entry_time a \<noteq> None)"

text \<open>
  The spawn scheduler as the program computes it: the cadence is the float quotient of
  the level duration and the level's apple target, and at the elapsed time \<open>e\<close> there
  should be \<open>int (e / cadence) + 1\<close> apples, with the float division, capped at the
  target.
\<close>

definition cadence :: "level \<Rightarrow> real" where
  "cadence lv = int_true_divide (lv_time lv) (lv_apples lv)"

definition scheduled_count :: "level \<Rightarrow> real \<Rightarrow> int" where
  "scheduled_count lv e = min (py_int (fdiv e (cadence lv)) + 1) (lv_apples lv)"

text \<open>
  The same contract read in exact arithmetic: \<open>floor (e / cadence) + 1\<close> capped at the
  target, with the cadence the exact quotient duration / target.
\<close>

definition exact_scheduled_count :: "level \<Rightarrow> real \<Rightarrow> int" where
  "exact_scheduled_count lv e =
     min (\<lfloor>e / (real_of_int (lv_time lv) / real_of_int (lv_apples lv))\<rfloor> + 1) (lv_apples lv)"

text \<open>
  A level is running in state \<open>g\<close>: the level is set, its apple target and its cadence
  are positive, the spawn interval is the cadence, no apple makes \<^verbatim>\<open>update\<close> raise, and
  the apples carry the scheduled spawn times.
\<close>

definition in_level :: "game \<Rightarrow> level \<Rightarrow> bool" where
  "in_level g lv \<longleftrightarrow>
     current_level g = Some lv \<and> 0 < lv_apples lv \<and> 0 < cadence lv \<and>
     apple_spawn_interval g = cadence lv \<and>
     (\<forall>a\<in>set (apples g). apple_ok a) \<and>
     (\<forall>i<length (apples g).
        start_time (apples g ! i) = fadd (game_start_time g) (fmul (float_of_int (int i)) (cadence lv)))"

text \<open>The number of apples after a tick that has returned a state.\<close>

definition apple_count :: "(py_error + game) option \<Rightarrow> int option" where
  "apple_count r = (case r of Some (Inr g) \<Rightarrow> Some (int (length (apples g))) | _ \<Rightarrow> None)"

text \<open>The random choice that draws the same edge for every apple.\<close>

definition always :: "spawn_edge \<Rightarrow> nat \<Rightarrow> spawn_edge" where
  "always edge n = edge"

text \<open>
  An edge of the accelerometer's Y value at a sampling tick (more than the float 0.1
  after the last sample, in the program's subtraction): the sample is above +2
  while the sample before was at most +2 (forward), or below -2 while the sample before
  was at least -2 (backward).
\<close>

definition accel_edge :: "game \<Rightarrow> real \<Rightarrow> (real \<times> real \<times> real) option \<Rightarrow> action \<Rightarrow> bool" where
  "accel_edge g now accel_read act \<longleftrightarrow>
     fsub now (last_accel_action_time g) > float_round (1 / 10) \<and>
     (case accel_read of
        None \<Rightarrow> False
      | Some (ax, ay, az) \<Rightarrow>
          (act = Forward \<and> ay > 2 \<and> last_accel_y g \<le> 2) \<or>
          (act = Backward \<and> ay < - 2 \<and> last_accel_y g \<ge> - 2))"

text \<open>
  Two states agree on what \<^verbatim>\<open>_update_inputs\<close> reads and writes besides the apples: the
  state of the session, the last encoder position, the last accelerometer sample and its
  time, and the two pending actions.
\<close>

definition same_input_state :: "game \<Rightarrow> game \<Rightarrow> bool" where
  "same_input_state g g' \<longleftrightarrow>
     state g = state g' \<and>
     last_encoder_position g = last_encoder_position g' \<and>
     last_encoder_action_time g = last_encoder_action_time g' \<and>
     encoder_action_pending g = encoder_action_pending g' \<and>
     last_accel_y g = last_accel_y g' \<and>
     last_accel_action_time g = last_accel_action_time g' \<and>
     accel_action_pending g = accel_action_pending g'"

section \<open>Properties\<close>

subsection \<open>Rounding to binary64\<close>

lemma powr_powi: "(2::real) powr real_of_int k = 2 powi k"
  by (simp add: powr_real_of_int power_int_def power_one_over inverse_eq_divide)

lemma binade_floor_log:
  assumes "v \<noteq> 0"
  shows "\<lfloor>log 2 \<bar>v\<bar>\<rfloor> = k \<longleftrightarrow> 2 powi k \<le> \<bar>v\<bar> \<and> \<bar>v\<bar> < 2 powi (k + 1)"
proof -
  have "0 < \<bar>v\<bar>" using assms by simp
  from floor_log_eq_powr_iff[OF this, of 2 k]
  have "\<lfloor>log 2 \<bar>v\<bar>\<rfloor> = k \<longleftrightarrow> 2 powr real_of_int k \<le> \<bar>v\<bar> \<and> \<bar>v\<bar> < 2 powr (real_of_int k + 1)"
    by simp
  moreover have "(2::real) powr (real_of_int k + 1) = 2 powi (k + 1)"
    using powr_powi[of "k + 1"] by simp
  ultimately show ?thesis by (simp add: powr_powi)
qed

lemma binade_exists:
  assumes "v \<noteq> 0"
  shows "\<exists>k. (2::real) powi k \<le> \<bar>v\<bar> \<and> \<bar>v\<bar> < 2 powi (k + 1)"
  using binade_floor_log[OF assms, of "\<lfloor>log 2 \<bar>v\<bar>\<rfloor>"] by blast

lemma float_exponent_eq:
  assumes "2 powi k \<le> \<bar>v\<bar>" "\<bar>v\<bar> < 2 powi (k + 1)"
  shows "float_exponent v = max (k - 52) (- 1074)"
proof -
  have "(0::real) < 2 powi k" by simp
  with assms(1) have "0 < \<bar>v\<bar>" by linarith
  then have "v \<noteq> 0" by simp
  from binade_floor_log[OF this, of k] assms show ?thesis by (simp add: float_exponent_def)
qed

lemma float_round_binade:
  assumes "2 powi k \<le> \<bar>v\<bar>" "\<bar>v\<bar> < 2 powi (k + 1)"
  shows "float_round v =
     real_of_int (round_half_even (v / 2 powi max (k - 52) (- 1074))) * 2 powi max (k - 52) (- 1074)"
proof -
  have "(0::real) < 2 powi k" by simp
  with assms(1) have "0 < \<bar>v\<bar>" by linarith
  then have "v \<noteq> 0" by simp
  then show ?thesis by (simp add: float_round_def float_exponent_eq[OF assms])
qed

lemma round_half_even_int [simp]: "round_half_even (real_of_int n) = n"
  by (simp add: round_half_even_def)

lemma round_half_even_bounds:
  "real_of_int (round_half_even v) - v \<le> 1 / 2" "v - real_of_int (round_half_even v) \<le> 1 / 2"
  unfolding round_half_even_def Let_def by (auto; linarith)+

lemma round_half_even_mono:
  assumes "v \<le> w"
  shows "round_half_even v \<le> round_half_even w"
proof (cases "\<lfloor>v\<rfloor> = \<lfloor>w\<rfloor>")
  case True
  with assms show ?thesis
    unfolding round_half_even_def Let_def by auto
next
  case False
  with assms have "\<lfloor>v\<rfloor> < \<lfloor>w\<rfloor>" using floor_mono[OF assms] by linarith
  moreover have "round_half_even v \<le> \<lfloor>v\<rfloor> + 1"
    unfolding round_half_even_def Let_def by auto
  moreover have "\<lfloor>w\<rfloor> \<le> round_half_even w"
    unfolding round_half_even_def Let_def by auto
  ultimately show ?thesis by linarith
qed

lemma round_half_even_minus: "round_half_even (- v) = - round_half_even v"
proof (cases "v = real_of_int \<lfloor>v\<rfloor>")
  case True
  then have "round_half_even v = \<lfloor>v\<rfloor>" by (metis round_half_even_int)
  moreover have "- v = real_of_int (- \<lfloor>v\<rfloor>)" using True by simp
  then have "round_half_even (- v) = - \<lfloor>v\<rfloor>" by (metis round_half_even_int)
  ultimately show ?thesis by simp
next
  case False
  then have lt: "real_of_int \<lfloor>v\<rfloor> < v" by linarith
  have fl: "\<lfloor>- v\<rfloor> = - \<lfloor>v\<rfloor> - 1"
  proof (rule floor_unique)
    show "real_of_int (- \<lfloor>v\<rfloor> - 1) \<le> - v" by simp linarith
    show "- v < real_of_int (- \<lfloor>v\<rfloor> - 1) + 1" using lt by simp
  qed
  have ev: "even (- \<lfloor>v\<rfloor> - 1) \<longleftrightarrow> \<not> even \<lfloor>v\<rfloor>" by simp
  show ?thesis
    unfolding round_half_even_def Let_def fl ev
    by (auto; linarith)
qed

lemma float_round_0 [simp]: "float_round 0 = 0"
  by (simp add: float_round_def)

lemma float_exponent_minus: "float_exponent (- v) = float_exponent v"
  by (simp add: float_exponent_def)

lemma float_round_minus: "float_round (- v) = - float_round v"
  by (simp add: float_round_def float_exponent_minus round_half_even_minus)

lemma float_exponent_ge: "- 1074 \<le> float_exponent v"
  by (simp add: float_exponent_def)

lemma round_half_even_pow2 [simp]: "round_half_even (2 ^ n) = 2 ^ n"
  using round_half_even_int[of "2 ^ n"] by simp

text \<open>A power of two divided by a smaller power of two is an integer.\<close>

lemma powi_ratio_int:
  assumes "e \<le> k"
  shows "(2::real) powi k / 2 powi e = real_of_int (2 ^ nat (k - e))"
proof -
  have "(2::real) powi k / 2 powi e = 2 powi (k - e)" by (simp add: power_int_diff)
  also have "\<dots> = 2 ^ nat (k - e)" using assms by (simp add: power_int_nonneg_exp)
  finally show ?thesis by simp
qed

lemma float_round_pos_mono:
  assumes "0 < v" "v \<le> w"
  shows "float_round v \<le> float_round w"
proof -
  from assms have wpos: "0 < w" by simp
  obtain k where k: "2 powi k \<le> \<bar>v\<bar>" "\<bar>v\<bar> < 2 powi (k + 1)"
    using binade_exists[of v] assms(1) by auto
  obtain l where l: "2 powi l \<le> \<bar>w\<bar>" "\<bar>w\<bar> < 2 powi (l + 1)"
    using binade_exists[of w] wpos by auto
  define e where "e = max (k - 52) (- 1074)"
  define f where "f = max (l - 52) (- 1074)"
  have rv: "float_round v = real_of_int (round_half_even (v / 2 powi e)) * 2 powi e"
    unfolding e_def by (rule float_round_binade[OF k])
  have rw: "float_round w = real_of_int (round_half_even (w / 2 powi f)) * 2 powi f"
    unfolding f_def by (rule float_round_binade[OF l])
  have kl: "k \<le> l"
  proof (rule ccontr)
    assume "\<not> k \<le> l"
    then have "l + 1 \<le> k" by simp
    then have "(2::real) powi (l + 1) \<le> 2 powi k" by (intro power_int_increasing) simp_all
    with k(1) l(2) assms show False by simp
  qed
  show ?thesis
  proof (cases "e = f")
    case True
    have "v / 2 powi f \<le> w / 2 powi f" using assms(2) by (simp add: divide_right_mono)
    then have "round_half_even (v / 2 powi f) \<le> round_half_even (w / 2 powi f)"
      by (rule round_half_even_mono)
    then have "real_of_int (round_half_even (v / 2 powi f)) * 2 powi f \<le>
               real_of_int (round_half_even (w / 2 powi f)) * 2 powi f"
      by (intro mult_right_mono) simp_all
    then show ?thesis by (simp add: rv rw True)
  next
    case False
    with kl have ef: "e < f" and kl': "k < l" and f: "f = l - 52"
      by (auto simp: e_def f_def)
    have el: "e \<le> l" and fl: "f \<le> l" using ef f by simp_all
    have "v < 2 powi l"
    proof -
      have "(2::real) powi (k + 1) \<le> 2 powi l" using kl' by (intro power_int_increasing) simp_all
      with k(2) assms(1) show ?thesis by simp
    qed
    then have "v / 2 powi e \<le> 2 powi l / 2 powi e" by (simp add: divide_right_mono)
    then have "round_half_even (v / 2 powi e) \<le> round_half_even (2 powi l / 2 powi e)"
      by (rule round_half_even_mono)
    also have "\<dots> = 2 ^ nat (l - e)" by (simp only: powi_ratio_int[OF el] round_half_even_int)
    finally have "real_of_int (round_half_even (v / 2 powi e)) \<le> 2 powi l / 2 powi e"
      by (simp add: powi_ratio_int[OF el])
    then have "real_of_int (round_half_even (v / 2 powi e)) * 2 powi e \<le> 2 powi l / 2 powi e * 2 powi e"
      by (intro mult_right_mono) simp_all
    then have low: "float_round v \<le> 2 powi l" by (simp add: rv)
    have "2 powi l / 2 powi f \<le> w / 2 powi f" using l(1) wpos by (simp add: divide_right_mono)
    then have "round_half_even (2 powi l / 2 powi f) \<le> round_half_even (w / 2 powi f)"
      by (rule round_half_even_mono)
    then have "2 powi l / 2 powi f \<le> real_of_int (round_half_even (w / 2 powi f))"
      by (simp add: powi_ratio_int[OF fl])
    then have "2 powi l / 2 powi f * 2 powi f \<le> real_of_int (round_half_even (w / 2 powi f)) * 2 powi f"
      by (intro mult_right_mono) simp_all
    then have "2 powi l \<le> float_round w" by (simp add: rw)
    with low show ?thesis by simp
  qed
qed

lemma float_round_nonneg: "0 \<le> v \<Longrightarrow> 0 \<le> float_round v"
proof -
  assume "0 \<le> v"
  then have "0 \<le> v / 2 powi float_exponent v" by simp
  then have "round_half_even 0 \<le> round_half_even (v / 2 powi float_exponent v)"
    by (rule round_half_even_mono)
  then have "0 \<le> round_half_even (v / 2 powi float_exponent v)"
    using round_half_even_int[of 0] by simp
  then show ?thesis by (simp add: float_round_def)
qed

lemma float_round_mono:
  assumes "v \<le> w"
  shows "float_round v \<le> float_round w"
proof -
  consider "0 < v" | "v \<le> 0" "0 \<le> w" | "w < 0" using assms by linarith
  then show ?thesis
  proof cases
    case 1
    then show ?thesis using assms by (rule float_round_pos_mono)
  next
    case 2
    from 2(1) have "0 \<le> float_round (- v)" by (intro float_round_nonneg) simp
    then have "float_round v \<le> 0" by (simp add: float_round_minus)
    with float_round_nonneg[OF 2(2)] show ?thesis by simp
  next
    case 3
    then have "0 < - w" "- w \<le> - v" using assms by simp_all
    then have "float_round (- w) \<le> float_round (- v)" by (rule float_round_pos_mono)
    then show ?thesis by (simp add: float_round_minus)
  qed
qed

lemma float_round_of_multiple:
  assumes "v \<noteq> 0" "v / 2 powi float_exponent v = real_of_int n"
  shows "float_round v = v"
proof -
  have "float_round v = real_of_int n * 2 powi float_exponent v"
    using assms by (simp add: float_round_def)
  also have "\<dots> = v / 2 powi float_exponent v * 2 powi float_exponent v"
    by (simp only: assms(2))
  also have "\<dots> = v" by simp
  finally show ?thesis .
qed

lemma float_exact:
  assumes m: "\<bar>m\<bar> \<le> 2 ^ 53" and j: "- 1074 \<le> j"
  shows "float_round (real_of_int m * 2 powi j) = real_of_int m * 2 powi j"
proof (cases "m = 0")
  case True
  then show ?thesis by simp
next
  case False
  define v where "v = real_of_int m * 2 powi j"
  have v0: "v \<noteq> 0" using False by (simp add: v_def)
  obtain k where k: "2 powi k \<le> \<bar>v\<bar>" "\<bar>v\<bar> < 2 powi (k + 1)"
    using binade_exists[OF v0] by blast
  have e: "float_exponent v = max (k - 52) (- 1074)" by (rule float_exponent_eq[OF k])
  define e where "e = float_exponent v"
  have absv: "\<bar>v\<bar> = real_of_int \<bar>m\<bar> * 2 powi j" by (simp add: v_def abs_mult)
  have "\<exists>n. v / 2 powi e = real_of_int n"
  proof (cases "e \<le> j")
    case True
    have "v / 2 powi e = real_of_int m * (2 powi j / 2 powi e)" by (simp add: v_def)
    also have "\<dots> = real_of_int (m * 2 ^ nat (j - e))" by (simp only: powi_ratio_int[OF True]) simp
    finally show ?thesis by blast
  next
    case False
    then have je: "j < e" by simp
    with j have ek: "e = k - 52" using e by (simp add: e_def)
    have "2 powi k \<le> real_of_int \<bar>m\<bar> * 2 powi j" using k(1) absv by simp
    then have "2 powi k / 2 powi j \<le> real_of_int \<bar>m\<bar>" by (simp add: pos_divide_le_eq)
    then have ge: "(2::real) powi (k - j) \<le> real_of_int \<bar>m\<bar>" by (simp add: power_int_diff)
    have kj: "53 \<le> k - j" using je ek by simp
    have "k - j = 53"
    proof (rule ccontr)
      assume "k - j \<noteq> 53"
      with kj have "54 \<le> k - j" by simp
      then have "(2::real) powi 54 \<le> 2 powi (k - j)" by (intro power_int_increasing) simp_all
      with ge have "(2::real) powi 54 \<le> real_of_int \<bar>m\<bar>" by simp
      moreover have "real_of_int \<bar>m\<bar> \<le> 2 ^ 53" using m by (metis of_int_le_iff of_int_numeral of_int_power)
      ultimately show False by simp
    qed
    with ge have "(2::real) ^ 53 \<le> real_of_int \<bar>m\<bar>" by simp
    then have "2 ^ 53 \<le> \<bar>m\<bar>" by (metis of_int_le_iff of_int_numeral of_int_power)
    with m have m53: "\<bar>m\<bar> = 2 ^ 53" by simp
    have ej: "j - e = - 1" using \<open>k - j = 53\<close> ek by simp
    have "v / 2 powi e = real_of_int m * 2 powi (j - e)" by (simp add: v_def power_int_diff)
    also have "\<dots> = real_of_int m / 2" by (simp add: ej)
    also have "\<dots> = real_of_int (m div 2)"
    proof -
      have "even m" using m53 by (cases "0 \<le> m") (simp_all, presburger+)
      then show ?thesis by (simp add: real_of_int_div)
    qed
    finally show ?thesis by blast
  qed
  then obtain n where "v / 2 powi float_exponent v = real_of_int n" by (auto simp: e_def)
  from float_round_of_multiple[OF v0 this] show ?thesis by (simp add: v_def)
qed

lemma float_round_int: "\<bar>i\<bar> \<le> 2 ^ 53 \<Longrightarrow> float_round (real_of_int i) = real_of_int i"
  using float_exact[of i 0] by simp

lemma float_round_half: "\<bar>i\<bar> \<le> 2 ^ 53 \<Longrightarrow> float_round (real_of_int i / 2) = real_of_int i / 2"
  using float_exact[of i "- 1"] by simp

lemma float_round_quarter: "\<bar>i\<bar> \<le> 2 ^ 53 \<Longrightarrow> float_round (real_of_int i / 4) = real_of_int i / 4"
  using float_exact[of i "- 2"] by (simp add: power_int_minus)

lemma float_round_significand:
  assumes "v \<noteq> 0"
  shows "\<bar>round_half_even (v / 2 powi float_exponent v)\<bar> \<le> 2 ^ 53"
proof -
  obtain k where k: "2 powi k \<le> \<bar>v\<bar>" "\<bar>v\<bar> < 2 powi (k + 1)"
    using binade_exists[OF assms] by blast
  define e where "e = float_exponent v"
  have e: "e = max (k - 52) (- 1074)" unfolding e_def by (rule float_exponent_eq[OF k])
  then have "k + 1 \<le> e + 53" by simp
  then have "(2::real) powi (k + 1) \<le> 2 powi (e + 53)" by (intro power_int_increasing) simp_all
  with k(2) have "\<bar>v\<bar> \<le> 2 powi (e + 53)" by simp
  then have "\<bar>v\<bar> / 2 powi e \<le> 2 powi (e + 53) / 2 powi e" by (simp add: divide_right_mono)
  then have b: "\<bar>v / 2 powi e\<bar> \<le> 2 ^ 53" by (simp add: power_int_add)
  then have up: "v / 2 powi e \<le> 2 ^ 53" and lo: "- (2 ^ 53) \<le> v / 2 powi e" by linarith+
  have "round_half_even (v / 2 powi e) \<le> round_half_even (2 ^ 53)"
    using up by (rule round_half_even_mono)
  moreover have "round_half_even (- (2 ^ 53)) \<le> round_half_even (v / 2 powi e)"
    using lo by (rule round_half_even_mono)
  ultimately show ?thesis
    unfolding e_def[symmetric] by (simp only: round_half_even_minus round_half_even_pow2)
qed

lemma float_round_idem [simp]: "float_round (float_round v) = float_round v"
proof (cases "v = 0")
  case True
  then show ?thesis by simp
next
  case False
  have "float_round v = real_of_int (round_half_even (v / 2 powi float_exponent v)) * 2 powi float_exponent v"
    using False by (simp add: float_round_def)
  moreover have "float_round (real_of_int (round_half_even (v / 2 powi float_exponent v)) * 2 powi float_exponent v) =
      real_of_int (round_half_even (v / 2 powi float_exponent v)) * 2 powi float_exponent v"
    by (rule float_exact[OF float_round_significand[OF False] float_exponent_ge])
  ultimately show ?thesis by simp
qed

lemma float_round_error:
  "\<bar>float_round v - v\<bar> \<le> 2 powi float_exponent v / 2"
proof (cases "v = 0")
  case True
  then show ?thesis by simp
next
  case False
  define u where "u = (2::real) powi float_exponent v"
  define n where "n = round_half_even (v / u)"
  have u: "0 < u" by (simp add: u_def)
  have fr: "float_round v = real_of_int n * u" using False by (simp add: float_round_def n_def u_def)
  have "\<bar>real_of_int n - v / u\<bar> \<le> 1 / 2"
    using round_half_even_bounds[of "v / u"] unfolding n_def by linarith
  then have 1: "\<bar>real_of_int n - v / u\<bar> * u \<le> 1 / 2 * u" using u by (intro mult_right_mono) simp_all
  have 2: "\<bar>real_of_int n - v / u\<bar> * u = \<bar>real_of_int n * u - v\<bar>"
  proof -
    have "\<bar>real_of_int n - v / u\<bar> * u = \<bar>(real_of_int n - v / u) * u\<bar>"
      using u by (simp add: abs_mult)
    also have "(real_of_int n - v / u) * u = real_of_int n * u - v"
      using u by (simp add: left_diff_distrib)
    finally show ?thesis .
  qed
  from 1 have "\<bar>real_of_int n * u - v\<bar> \<le> u / 2" by (simp add: 2)
  then show ?thesis by (simp only: fr u_def)
qed

lemma float_exponent_le:
  assumes "\<bar>v\<bar> < 2 powi (n + 1)" "v \<noteq> 0"
  shows "float_exponent v \<le> max (n - 52) (- 1074)"
proof -
  obtain k where k: "2 powi k \<le> \<bar>v\<bar>" "\<bar>v\<bar> < 2 powi (k + 1)"
    using binade_exists[OF assms(2)] by blast
  have "k \<le> n"
  proof (rule ccontr)
    assume "\<not> k \<le> n"
    then have "n + 1 \<le> k" by simp
    then have "(2::real) powi (n + 1) \<le> 2 powi k" by (intro power_int_increasing) simp_all
    with k(1) assms(1) show False by simp
  qed
  then show ?thesis by (simp add: float_exponent_eq[OF k])
qed

lemma float_round_eval:
  assumes "2 powi k \<le> \<bar>v\<bar>" "\<bar>v\<bar> < 2 powi (k + 1)" "- 1022 \<le> k"
    "round_half_even (v * 2 powi (52 - k)) = n"
  shows "float_round v = real_of_int n / 2 powi (52 - k)"
proof -
  have m: "max (k - 52) (- 1074) = k - 52" using assms(3) by simp
  have d: "v / 2 powi (k - 52) = v * 2 powi (52 - k)"
    using power_int_minus[of "2::real" "k - 52"] by (simp add: field_simps)
  have "float_round v = real_of_int n * 2 powi (k - 52)"
    using float_round_binade[OF assms(1,2)] by (simp add: m d assms(4))
  also have "\<dots> = real_of_int n / 2 powi (52 - k)"
    using power_int_minus[of "2::real" "52 - k"] by (simp add: field_simps)
  finally show ?thesis .
qed

lemma float_round_numeral [simp]:
  "numeral n \<le> (2::int) ^ 53 \<Longrightarrow> float_round (numeral n) = numeral n"
  using float_round_int[of "numeral n"] by simp

lemma float_round_neg_numeral [simp]:
  "numeral n \<le> (2::int) ^ 53 \<Longrightarrow> float_round (- numeral n) = - numeral n"
  using float_round_int[of "- numeral n"] by simp

lemma float_round_1 [simp]: "float_round 1 = 1"
  using float_round_int[of 1] by simp

lemma float_round_numeral_half [simp]:
  "numeral n \<le> (2::int) ^ 53 \<Longrightarrow> float_round (numeral n / 2) = numeral n / 2"
  using float_round_half[of "numeral n"] by simp

lemma float_round_neg_numeral_half [simp]:
  "numeral n \<le> (2::int) ^ 53 \<Longrightarrow> float_round (- (numeral n / 2)) = - (numeral n / 2)"
  using float_round_half[of "- numeral n"] by simp

lemma float_round_one_half [simp]: "float_round (1 / 2) = 1 / 2"
  using float_round_half[of 1] by simp

lemma float_round_one_quarter [simp]: "float_round (1 / 4) = 1 / 4"
  using float_round_quarter[of 1] by simp

lemma float_round_numeral_quarter [simp]:
  "numeral n \<le> (2::int) ^ 53 \<Longrightarrow> float_round (numeral n / 4) = numeral n / 4"
  using float_round_quarter[of "numeral n"] by simp

lemma float_of_int_numeral [simp]:
  "numeral n \<le> (2::int) ^ 53 \<Longrightarrow> float_of_int (numeral n) = numeral n"
  by (simp add: float_of_int_def)

lemma float_of_int_neg_numeral [simp]:
  "numeral n \<le> (2::int) ^ 53 \<Longrightarrow> float_of_int (- numeral n) = - numeral n"
  by (simp add: float_of_int_def)

lemma float_of_int_0 [simp]: "float_of_int 0 = 0"
  by (simp add: float_of_int_def)

lemma float_of_int_1 [simp]: "float_of_int 1 = 1"
  by (simp add: float_of_int_def)

lemma float_of_int_nat: "float_of_int (int n) = float_round (real n)"
  by (simp add: float_of_int_def)

lemmas float_ops = fadd_def fsub_def fmul_def fdiv_def

lemma fsub_mono_left: "v \<le> w \<Longrightarrow> fsub v u \<le> fsub w u"
  by (simp add: fsub_def float_round_mono)

lemma fdiv_mono_left: "0 < u \<Longrightarrow> v \<le> w \<Longrightarrow> fdiv v u \<le> fdiv w u"
  by (simp add: fdiv_def float_round_mono divide_right_mono)

lemma fdiv_nonneg: "0 \<le> v \<Longrightarrow> 0 < u \<Longrightarrow> 0 \<le> fdiv v u"
  by (simp add: fdiv_def float_round_nonneg)

lemma fsub_self [simp]: "fsub v v = 0"
  by (simp add: fsub_def)

lemma fsub_float_round_0 [simp]: "fsub (float_round v) 0 = float_round v"
  by (simp add: fsub_def)

lemma fsub_fsub_0 [simp]: "fsub (fsub v w) 0 = fsub v w"
  by (simp add: fsub_def)

lemma float_round_fsub [simp]: "float_round (fsub v w) = fsub v w"
  by (simp add: fsub_def)

lemma fr_02: "float_round (2 / 10) = 3602879701896397 / 18014398509481984"
proof -
  have "float_round (2 / 10) = real_of_int 7205759403792794 / 2 powi (52 - (- 3))"
    by (rule float_round_eval) (simp_all add: power_int_minus round_half_even_def)
  also have "\<dots> = 3602879701896397 / 18014398509481984" by simp
  finally show ?thesis .
qed

lemma fr_01: "float_round (1 / 10) = 3602879701896397 / 36028797018963968"
proof -
  have "float_round (1 / 10) = real_of_int 7205759403792794 / 2 powi (52 - (- 4))"
    by (rule float_round_eval) (simp_all add: power_int_minus round_half_even_def)
  also have "\<dots> = 3602879701896397 / 36028797018963968" by simp
  finally show ?thesis .
qed

lemma RESPONSE_DELAY_eq: "RESPONSE_DELAY = 3602879701896397 / 18014398509481984"
  unfolding RESPONSE_DELAY_def by (rule fr_02)

subsection \<open>Geometry of the spawn points\<close>

lemmas geom = is_in_invalid_region_def INVALID_REGION_def off_screen_def APPLE_SIZE_def
  OLED_WIDTH_def OLED_HEIGHT_def CUT_TIME_LIMIT_def

lemma sqrtT: "sqrt 1225 = 35"
  by (rule real_sqrt_unique) simp_all

lemma sqrtB: "sqrt 784 = 28"
  by (rule real_sqrt_unique) simp_all

lemma Apple_Top: "Apple Top s t = \<lparr>spawn_direction = Top, speed = s, start_time = t, sliced = False,
  entered_valid_zone = False, valid_zone_entry_time = None, expired = False, start_pos = (63, 0),
  target_pos = (63, 35), direction = (0, 1), pos_x = 63, pos_y = 0, expected_action = Some Forward\<rparr>"
  by (simp add: Apple_def SCREEN_CENTER_def Let_def fsqrt_def fdiv_def sqrtT)

lemma Apple_flags:
  "sliced (Apple d s t) = False" "expired (Apple d s t) = False"
  "entered_valid_zone (Apple d s t) = False" "valid_zone_entry_time (Apple d s t) = None"
  "expected_action (Apple d s t) = get_expected_action d"
  "pos_x (Apple d s t) = float_of_int (fst (SPAWN_POSITIONS d))"
  "pos_y (Apple d s t) = float_of_int (snd (SPAWN_POSITIONS d))"
  by (simp_all add: Apple_def Let_def)

lemma spawn_outside: "\<not> is_in_invalid_region (Apple d s t)"
  by (cases d) (simp_all add: Apple_def Let_def geom)

lemma float_round_neg_1 [simp]: "float_round (- 1) = - 1"
  using float_round_int[of "- 1"] by simp

lemma Apple_Bottom: "Apple Bottom s t = \<lparr>spawn_direction = Bottom, speed = s, start_time = t, sliced = False,
  entered_valid_zone = False, valid_zone_entry_time = None, expired = False, start_pos = (63, 63),
  target_pos = (63, 35), direction = (0, - 1), pos_x = 63, pos_y = 63, expected_action = Some Backward\<rparr>"
  by (simp add: Apple_def SCREEN_CENTER_def Let_def fsqrt_def fdiv_def sqrtB)

text \<open>At its spawn time an apple is at its spawn position.\<close>

lemma float_of_int_idem [simp]: "float_round (float_of_int i) = float_of_int i"
  by (simp add: float_of_int_def)

lemma move_at_start: "move (Apple d s t0) t0 = Apple d s t0"
  by (simp add: move_def Apple_def Let_def float_ops)

subsection \<open>Entity lifecycle\<close>

lemma update_dead: "sliced a \<or> expired a \<Longrightarrow> update a now = Inr a"
  by (simp add: update_def)

lemma update_seq_dead: "sliced a \<or> expired a \<Longrightarrow> update_seq a ts = Inr a"
  by (induction ts) (simp_all add: update_def)

lemma region_move_cong: "same_path a b \<Longrightarrow> is_in_invalid_region (move b t) = is_in_invalid_region (move a t)"
  by (simp add: same_path_def move_def Let_def is_in_invalid_region_def)

lemma update_entered:
  assumes "entered_valid_zone a" "valid_zone_entry_time a = Some e"
  shows "\<exists>a'. update a t = Inr a' \<and> entered_valid_zone a' \<and> valid_zone_entry_time a' = Some e"
  using assms by (simp add: update_def move_def Let_def)

lemma update_seq_entered:
  assumes "entered_valid_zone a" "valid_zone_entry_time a = Some e"
  shows "\<exists>a'. update_seq a ts = Inr a' \<and> entered_valid_zone a' \<and> valid_zone_entry_time a' = Some e"
  using assms
proof (induction ts arbitrary: a)
  case Nil
  then show ?case by simp
next
  case (Cons t ts)
  from update_entered[OF Cons.prems, of t] obtain a1 where
    a1: "update a t = Inr a1" "entered_valid_zone a1" "valid_zone_entry_time a1 = Some e" by blast
  from Cons.IH[OF a1(2,3)] a1(1) show ?case by simp
qed

lemma inside_not_off_screen: "is_in_invalid_region a \<Longrightarrow> \<not> off_screen a"
  by (simp add: geom)

lemma update_inside:
  assumes "\<not> sliced a" "\<not> expired a" "\<not> entered_valid_zone a" "is_in_invalid_region (move a t)"
  shows "update a t = Inr (move a t)"
  using assms inside_not_off_screen[OF assms(4)]
  by (simp add: update_def Let_def) (simp add: move_def Let_def)

lemma update_outside:
  assumes "\<not> sliced a" "\<not> expired a" "\<not> entered_valid_zone a" "\<not> is_in_invalid_region (move a t)"
  shows "\<exists>a'. update a t = Inr a' \<and> entered_valid_zone a' \<and> valid_zone_entry_time a' = Some t"
  using assms
  by (simp add: update_def Let_def) (simp add: move_def Let_def)

lemma waiting_move: "waiting a \<Longrightarrow> waiting (move a t) \<and> same_path a (move a t)"
  by (simp add: waiting_def move_def Let_def same_path_def)

lemma update_seq_waiting:
  assumes "waiting a"
  shows "\<exists>a'. update_seq a ts = Inr a' \<and>
     ((\<forall>j<length ts. is_in_invalid_region (move a (ts ! j))) \<longrightarrow>
         \<not> entered_valid_zone a' \<and> valid_zone_entry_time a' = None) \<and>
     (\<forall>j<length ts. \<not> is_in_invalid_region (move a (ts ! j)) \<and>
          (\<forall>i<j. is_in_invalid_region (move a (ts ! i))) \<longrightarrow>
         entered_valid_zone a' \<and> valid_zone_entry_time a' = Some (ts ! j))"
  using assms
proof (induction ts arbitrary: a)
  case Nil
  then show ?case by (simp add: waiting_def)
next
  case (Cons t ts)
  show ?case
  proof (cases "is_in_invalid_region (move a t)")
    case True
    from Cons.prems True have u: "update a t = Inr (move a t)"
      by (simp add: update_inside waiting_def)
    from waiting_move[OF Cons.prems, of t] have w: "waiting (move a t)" and sp: "same_path a (move a t)"
      by simp_all
    from Cons.IH[OF w] obtain a' where
      r: "update_seq (move a t) ts = Inr a'"
      and none: "(\<forall>j<length ts. is_in_invalid_region (move (move a t) (ts ! j))) \<longrightarrow>
         \<not> entered_valid_zone a' \<and> valid_zone_entry_time a' = None"
      and first: "\<forall>j<length ts. \<not> is_in_invalid_region (move (move a t) (ts ! j)) \<and>
          (\<forall>i<j. is_in_invalid_region (move (move a t) (ts ! i))) \<longrightarrow>
         entered_valid_zone a' \<and> valid_zone_entry_time a' = Some (ts ! j)"
      by blast
    have cong: "\<And>u. is_in_invalid_region (move (move a t) u) = is_in_invalid_region (move a u)"
      using region_move_cong[OF sp] by simp
    have "update_seq a (t # ts) = Inr a'" using u r by simp
    moreover have "(\<forall>j<length (t # ts). is_in_invalid_region (move a ((t # ts) ! j))) \<longrightarrow>
         \<not> entered_valid_zone a' \<and> valid_zone_entry_time a' = None"
    proof
      assume h: "\<forall>j<length (t # ts). is_in_invalid_region (move a ((t # ts) ! j))"
      have "\<forall>j<length ts. is_in_invalid_region (move a (ts ! j))"
      proof (intro allI impI)
        fix j assume "j < length ts"
        then have "Suc j < length (t # ts)" by simp
        from h[rule_format, OF this] show "is_in_invalid_region (move a (ts ! j))" by simp
      qed
      with none cong show "\<not> entered_valid_zone a' \<and> valid_zone_entry_time a' = None" by simp
    qed
    moreover have "\<forall>j<length (t # ts). \<not> is_in_invalid_region (move a ((t # ts) ! j)) \<and>
          (\<forall>i<j. is_in_invalid_region (move a ((t # ts) ! i))) \<longrightarrow>
         entered_valid_zone a' \<and> valid_zone_entry_time a' = Some ((t # ts) ! j)"
    proof (intro allI impI)
      fix j assume jl: "j < length (t # ts)"
        and h: "\<not> is_in_invalid_region (move a ((t # ts) ! j)) \<and>
          (\<forall>i<j. is_in_invalid_region (move a ((t # ts) ! i)))"
      from h True obtain j' where j': "j = Suc j'" by (cases j) auto
      with jl have jl': "j' < length ts" by simp
      have "\<not> is_in_invalid_region (move a (ts ! j'))" using h j' by simp
      moreover have "\<forall>i<j'. is_in_invalid_region (move a (ts ! i))"
      proof (intro allI impI)
        fix i assume "i < j'"
        then have "Suc i < j" using j' by simp
        with h have "is_in_invalid_region (move a ((t # ts) ! Suc i))" by blast
        then show "is_in_invalid_region (move a (ts ! i))" by simp
      qed
      ultimately have "entered_valid_zone a' \<and> valid_zone_entry_time a' = Some (ts ! j')"
        using first jl' cong by simp
      then show "entered_valid_zone a' \<and> valid_zone_entry_time a' = Some ((t # ts) ! j)"
        using j' by simp
    qed
    ultimately show ?thesis by blast
  next
    case False
    from Cons.prems False obtain a1 where
      a1: "update a t = Inr a1" "entered_valid_zone a1" "valid_zone_entry_time a1 = Some t"
      using update_outside[of a t] by (auto simp: waiting_def)
    from update_seq_entered[OF a1(2,3), of ts] obtain a' where
      a': "update_seq a1 ts = Inr a'" "entered_valid_zone a'" "valid_zone_entry_time a' = Some t"
      by blast
    have "update_seq a (t # ts) = Inr a'" using a1(1) a'(1) by simp
    moreover have "\<not> (\<forall>j<length (t # ts). is_in_invalid_region (move a ((t # ts) ! j)))"
      using False by auto
    moreover have "\<forall>j<length (t # ts). \<not> is_in_invalid_region (move a ((t # ts) ! j)) \<and>
          (\<forall>i<j. is_in_invalid_region (move a ((t # ts) ! i))) \<longrightarrow>
         entered_valid_zone a' \<and> valid_zone_entry_time a' = Some ((t # ts) ! j)"
    proof (intro allI impI)
      fix j assume "j < length (t # ts)"
        and h: "\<not> is_in_invalid_region (move a ((t # ts) ! j)) \<and>
          (\<forall>i<j. is_in_invalid_region (move a ((t # ts) ! i)))"
      have "j = 0"
      proof (rule ccontr)
        assume "j \<noteq> 0"
        then have "0 < j" by simp
        with h have "is_in_invalid_region (move a ((t # ts) ! 0))" by blast
        with False show False by simp
      qed
      with a' show "entered_valid_zone a' \<and> valid_zone_entry_time a' = Some ((t # ts) ! j)" by simp
    qed
    ultimately show ?thesis by blast
  qed
qed

lemma waiting_Apple: "waiting (Apple d s t0)"
  by (simp add: waiting_def Apple_def Let_def)

text \<open>
  Claim C2. Start from a new apple and call \<open>update\<close> at the times \<open>ts\<close>. After any
  number \<open>k\<close> of calls, no call has raised, and: if every position computed so far was
  inside the forbidden rectangle, \<open>entered_valid_zone\<close> is still false and
  \<open>valid_zone_entry_time\<close> unset; if call \<open>j < k\<close> was the first to compute a position
  outside the rectangle, \<open>entered_valid_zone\<close> is true and \<open>valid_zone_entry_time\<close> is the
  \<open>now\<close> of call \<open>j\<close>, whatever the later calls were. So the flag goes from false to
  true at most once and the entry time is set once, at the first such call, and never
  changed afterwards.
\<close>

theorem zone_entry_set_once:
  "\<forall>k\<le>length ts. \<exists>a. update_seq (Apple d s t0) (take k ts) = Inr a \<and>
     ((\<forall>j<k. is_in_invalid_region (move (Apple d s t0) (ts ! j))) \<longrightarrow>
         \<not> entered_valid_zone a \<and> valid_zone_entry_time a = None) \<and>
     (\<forall>j<k. \<not> is_in_invalid_region (move (Apple d s t0) (ts ! j)) \<and>
          (\<forall>i<j. is_in_invalid_region (move (Apple d s t0) (ts ! i))) \<longrightarrow>
         entered_valid_zone a \<and> valid_zone_entry_time a = Some (ts ! j))"
proof (intro allI impI)
  fix k assume k: "k \<le> length ts"
  from update_seq_waiting[OF waiting_Apple, of d s t0 "take k ts"] k
  show "\<exists>a. update_seq (Apple d s t0) (take k ts) = Inr a \<and>
     ((\<forall>j<k. is_in_invalid_region (move (Apple d s t0) (ts ! j))) \<longrightarrow>
         \<not> entered_valid_zone a \<and> valid_zone_entry_time a = None) \<and>
     (\<forall>j<k. \<not> is_in_invalid_region (move (Apple d s t0) (ts ! j)) \<and>
          (\<forall>i<j. is_in_invalid_region (move (Apple d s t0) (ts ! i))) \<longrightarrow>
         entered_valid_zone a \<and> valid_zone_entry_time a = Some (ts ! j))"
    by (simp add: min_absorb2)
qed

theorem zone_entry_set_once_witness:
  "is_in_invalid_region (move (Apple Top 20 0) (3 / 2)) \<and>
   \<not> is_in_invalid_region (move (Apple Top 20 0) (5 / 2)) \<and>
   (\<exists>a. update_seq (Apple Top 20 0) [3 / 2, 5 / 2, 3] = Inr a \<and>
        entered_valid_zone a \<and> valid_zone_entry_time a = Some (5 / 2))"
proof -
  have i: "is_in_invalid_region (move (Apple Top 20 0) (3 / 2))"
    by (simp add: Apple_Top move_def Let_def geom float_ops)
  have o: "\<not> is_in_invalid_region (move (Apple Top 20 0) (5 / 2))"
    by (simp add: Apple_Top move_def Let_def geom float_ops)
  from zone_entry_set_once[of "[3 / 2, 5 / 2, 3]" Top 20 0, rule_format, of 3]
  obtain a where a: "update_seq (Apple Top 20 0) [3 / 2, 5 / 2, 3] = Inr a"
    and f: "\<forall>j<3. \<not> is_in_invalid_region (move (Apple Top 20 0) ([3 / 2, 5 / 2, 3] ! j)) \<and>
          (\<forall>i<j. is_in_invalid_region (move (Apple Top 20 0) ([3 / 2, 5 / 2, 3] ! i))) \<longrightarrow>
         entered_valid_zone a \<and> valid_zone_entry_time a = Some ([3 / 2, 5 / 2, 3] ! j)"
    by auto
  from f[rule_format, of 1] i o have "entered_valid_zone a \<and> valid_zone_entry_time a = Some (5 / 2)"
    by (simp add: less_Suc_eq)
  with i o a show ?thesis by blast
qed

text \<open>
  Claim C3. For an apple that has entered the valid zone and is not sliced, a call
  \<open>update a now\<close> with \<open>now - valid_zone_entry_time > CUT_TIME_LIMIT\<close>, the difference
  being the float subtraction of the program, returns with \<open>expired\<close> set.
\<close>

theorem update_expires_after_cut_time_limit:
  "entered_valid_zone a \<Longrightarrow> \<not> sliced a \<Longrightarrow> valid_zone_entry_time a = Some entry \<Longrightarrow>
   fsub now entry > CUT_TIME_LIMIT \<Longrightarrow> \<exists>a'. update a now = Inr a' \<and> expired a'"
  by (simp add: update_def move_def Let_def)

theorem update_expires_after_cut_time_limit_witness:
  "\<exists>a'. update ((Apple Top 20 0)\<lparr>entered_valid_zone := True, valid_zone_entry_time := Some 1\<rparr>) 6 = Inr a' \<and> expired a'"
  using update_expires_after_cut_time_limit[of "(Apple Top 20 0)\<lparr>entered_valid_zone := True, valid_zone_entry_time := Some 1\<rparr>" 1 6]
  by (simp add: Apple_def Let_def CUT_TIME_LIMIT_def fsub_def)

text \<open>
  Claim C4. If an apple is sliced or expired, \<open>update\<close> returns it as it is, at every
  time: position, zone flag, entry time, \<open>sliced\<close> and \<open>expired\<close> are unchanged, and
  so they are after any number of further calls.
\<close>

theorem update_noop_when_dead:
  "sliced a \<or> expired a \<Longrightarrow> update a now = Inr a \<and> update_seq a ts = Inr a"
  by (simp add: update_dead update_seq_dead)

theorem update_noop_when_dead_witness:
  "sliced ((Apple Top 20 0)\<lparr>sliced := True\<rparr>) \<and>
   update ((Apple Top 20 0)\<lparr>sliced := True\<rparr>) 1 = Inr ((Apple Top 20 0)\<lparr>sliced := True\<rparr>) \<and>
   update_seq ((Apple Top 20 0)\<lparr>sliced := True\<rparr>) [1, 2, 3] = Inr ((Apple Top 20 0)\<lparr>sliced := True\<rparr>)"
proof -
  have s: "sliced ((Apple Top 20 0)\<lparr>sliced := True\<rparr>)" by simp
  then have "sliced ((Apple Top 20 0)\<lparr>sliced := True\<rparr>) \<or> expired ((Apple Top 20 0)\<lparr>sliced := True\<rparr>)" ..
  from update_noop_when_dead[OF this, of 1 "[1, 2, 3]"] s show ?thesis by blast
qed

text \<open>
  Claim C10, as amended. Every spawn position is outside the forbidden rectangle. The
  first \<open>update\<close> call of a new apple sets \<open>entered_valid_zone\<close> and records its
  \<open>now\<close> as the entry time when the position computed at that call is outside the
  rectangle, as it is when \<open>now\<close> is the spawn time. When the computed position is
  inside the rectangle, the call leaves the flag false and the entry time unset; over
  the further \<open>update\<close> calls the entry time is then the \<open>now\<close> of the first call that
  computes a position outside the rectangle, and it stays unset while there is no such
  call.
\<close>

theorem first_update_enters_zone_when_outside:
  "\<not> is_in_invalid_region (Apple d s t0) \<and>
   (\<not> is_in_invalid_region (move (Apple d s t0) now) \<longrightarrow>
      (\<exists>a. update (Apple d s t0) now = Inr a \<and> entered_valid_zone a \<and> valid_zone_entry_time a = Some now)) \<and>
   (\<exists>a. update (Apple d s t0) t0 = Inr a \<and> entered_valid_zone a \<and> valid_zone_entry_time a = Some t0) \<and>
   (is_in_invalid_region (move (Apple d s t0) now) \<longrightarrow>
      (\<exists>a. update (Apple d s t0) now = Inr a \<and> \<not> entered_valid_zone a \<and> valid_zone_entry_time a = None) \<and>
      (\<exists>a. update_seq (Apple d s t0) (now # ts) = Inr a \<and>
         ((\<forall>j<length ts. is_in_invalid_region (move (Apple d s t0) (ts ! j))) \<longrightarrow>
            \<not> entered_valid_zone a \<and> valid_zone_entry_time a = None) \<and>
         (\<forall>j<length ts. \<not> is_in_invalid_region (move (Apple d s t0) (ts ! j)) \<and>
              (\<forall>i<j. is_in_invalid_region (move (Apple d s t0) (ts ! i))) \<longrightarrow>
            entered_valid_zone a \<and> valid_zone_entry_time a = Some (ts ! j))))"
proof -
  let ?a0 = "Apple d s t0"
  have w: "waiting ?a0" by (rule waiting_Apple)
  have 1: "\<not> is_in_invalid_region ?a0" by (rule spawn_outside)
  have 2: "\<not> is_in_invalid_region (move ?a0 u) \<Longrightarrow>
      \<exists>a. update ?a0 u = Inr a \<and> entered_valid_zone a \<and> valid_zone_entry_time a = Some u" for u
    using update_outside[of ?a0 u] w by (simp add: waiting_def)
  have 3: "\<exists>a. update ?a0 t0 = Inr a \<and> entered_valid_zone a \<and> valid_zone_entry_time a = Some t0"
    using 2[of t0] 1 by (simp add: move_at_start)
  have 4: "\<exists>a. update ?a0 now = Inr a \<and> \<not> entered_valid_zone a \<and> valid_zone_entry_time a = None"
    if "is_in_invalid_region (move ?a0 now)"
    using update_inside[of ?a0 now] w waiting_move[OF w, of now] that by (simp add: waiting_def)
  have 5: "\<exists>a. update_seq ?a0 (now # ts) = Inr a \<and>
         ((\<forall>j<length ts. is_in_invalid_region (move ?a0 (ts ! j))) \<longrightarrow>
            \<not> entered_valid_zone a \<and> valid_zone_entry_time a = None) \<and>
         (\<forall>j<length ts. \<not> is_in_invalid_region (move ?a0 (ts ! j)) \<and>
              (\<forall>i<j. is_in_invalid_region (move ?a0 (ts ! i))) \<longrightarrow>
            entered_valid_zone a \<and> valid_zone_entry_time a = Some (ts ! j))"
    if inside: "is_in_invalid_region (move ?a0 now)"
  proof -
    have u: "update ?a0 now = Inr (move ?a0 now)"
      using update_inside[of ?a0 now] w inside by (simp add: waiting_def)
    from waiting_move[OF w, of now] have w1: "waiting (move ?a0 now)" and sp: "same_path ?a0 (move ?a0 now)"
      by simp_all
    have cong: "\<And>v. is_in_invalid_region (move (move ?a0 now) v) = is_in_invalid_region (move ?a0 v)"
      using region_move_cong[OF sp] by simp
    from update_seq_waiting[OF w1, of ts] obtain a where
      "update_seq (move ?a0 now) ts = Inr a"
      "(\<forall>j<length ts. is_in_invalid_region (move (move ?a0 now) (ts ! j))) \<longrightarrow>
         \<not> entered_valid_zone a \<and> valid_zone_entry_time a = None"
      "\<forall>j<length ts. \<not> is_in_invalid_region (move (move ?a0 now) (ts ! j)) \<and>
          (\<forall>i<j. is_in_invalid_region (move (move ?a0 now) (ts ! i))) \<longrightarrow>
         entered_valid_zone a \<and> valid_zone_entry_time a = Some (ts ! j)"
      by blast
    then show ?thesis using u by (simp add: cong)
  qed
  from 1 2[of now] 3 4 5 show ?thesis by blast
qed

theorem first_update_enters_zone_when_outside_witness:
  "\<not> is_in_invalid_region (move (Apple Top 20 0) 1) \<and>
   (\<exists>a. update (Apple Top 20 0) 1 = Inr a \<and> entered_valid_zone a \<and> valid_zone_entry_time a = Some 1) \<and>
   is_in_invalid_region (move (Apple Top 20 0) 2) \<and>
   \<not> is_in_invalid_region (move (Apple Top 20 0) 3) \<and>
   (\<exists>a. update (Apple Top 20 0) 2 = Inr a \<and> \<not> entered_valid_zone a \<and> valid_zone_entry_time a = None) \<and>
   (\<exists>a. update_seq (Apple Top 20 0) [2, 3] = Inr a \<and> entered_valid_zone a \<and>
        valid_zone_entry_time a = Some 3)"
proof -
  have o1: "\<not> is_in_invalid_region (move (Apple Top 20 0) 1)"
    by (simp add: Apple_Top move_def Let_def geom float_ops)
  have i2: "is_in_invalid_region (move (Apple Top 20 0) 2)"
    by (simp add: Apple_Top move_def Let_def geom float_ops)
  have o3: "\<not> is_in_invalid_region (move (Apple Top 20 0) 3)"
    by (simp add: Apple_Top move_def Let_def geom float_ops)
  from first_update_enters_zone_when_outside[of Top 20 0 1] o1
  have a: "\<exists>a. update (Apple Top 20 0) 1 = Inr a \<and> entered_valid_zone a \<and> valid_zone_entry_time a = Some 1"
    by blast
  from first_update_enters_zone_when_outside[of Top 20 0 2 "[3]"] i2
  obtain b where b: "\<exists>a. update (Apple Top 20 0) 2 = Inr a \<and> \<not> entered_valid_zone a \<and> valid_zone_entry_time a = None"
    "update_seq (Apple Top 20 0) [2, 3] = Inr b"
    "\<forall>j<length [3::real]. \<not> is_in_invalid_region (move (Apple Top 20 0) ([3] ! j)) \<and>
              (\<forall>i<j. is_in_invalid_region (move (Apple Top 20 0) ([3] ! i))) \<longrightarrow>
            entered_valid_zone b \<and> valid_zone_entry_time b = Some ([3] ! j)"
    by blast
  from b(3)[rule_format, of 0] o3 have "entered_valid_zone b \<and> valid_zone_entry_time b = Some 3" by simp
  with o1 i2 o3 a b(1,2) show ?thesis by blast
qed

lemma update_Bottom_late:
  "update (Apple Bottom 90 0) (1 / 4) = Inr ((Apple Bottom 90 0)\<lparr>pos_x := 63, pos_y := 81 / 2\<rparr>)"
  by (simp add: Apple_Bottom update_def move_def Let_def geom float_ops)

text \<open>
  The claim C10 as stated fails: an apple spawned at the bottom with speed 90 (the speed
  of the last level) whose first \<open>update\<close> comes 0.25 s after its spawn time is at
  (63, 40.5), inside the rectangle, and its zone flag stays false.
\<close>

theorem first_update_inside_region_counterexample:
  "update (Apple Bottom 90 0) (1 / 4) = Inr ((Apple Bottom 90 0)\<lparr>pos_x := 63, pos_y := 81 / 2\<rparr>) \<and>
   \<not> entered_valid_zone ((Apple Bottom 90 0)\<lparr>pos_x := 63, pos_y := 81 / 2\<rparr>)"
  by (simp add: update_Bottom_late Apple_flags)

subsection \<open>Gesture matching\<close>

lemma cut_loop_Cons:
  "cut_loop adj act (a # as) =
     (if qualifies adj act a then (a\<lparr>sliced := True\<rparr> # as, True)
      else (case cut_loop adj act as of (as', b) \<Rightarrow> (a # as', b)))"
  by (simp add: qualifies_def is_in_valid_zone_def Let_def split: option.splits)

lemma cut_loop_none:
  "\<forall>a\<in>set as. \<not> qualifies adj act a \<Longrightarrow> cut_loop adj act as = (as, False)"
  by (induction as) (simp_all add: cut_loop_Cons del: cut_loop.simps(2))

lemma cut_loop_first:
  "i < length as \<Longrightarrow> qualifies adj act (as ! i) \<Longrightarrow> \<forall>j<i. \<not> qualifies adj act (as ! j) \<Longrightarrow>
   cut_loop adj act as = (as[i := (as ! i)\<lparr>sliced := True\<rparr>], True)"
proof (induction as arbitrary: i)
  case Nil
  then show ?case by simp
next
  case (Cons a as)
  show ?case
  proof (cases i)
    case 0
    with Cons.prems show ?thesis by (simp add: cut_loop_Cons del: cut_loop.simps(2))
  next
    case (Suc k)
    with Cons.prems have na: "\<not> qualifies adj act a" by auto
    have "cut_loop adj act as = (as[k := (as ! k)\<lparr>sliced := True\<rparr>], True)"
    proof (rule Cons.IH)
      show "k < length as" using Cons.prems(1) Suc by simp
      show "qualifies adj act (as ! k)" using Cons.prems(2) Suc by simp
      show "\<forall>j<k. \<not> qualifies adj act (as ! j)"
      proof (intro allI impI)
        fix j assume "j < k"
        then have "Suc j < i" using Suc by simp
        with Cons.prems(3) have "\<not> qualifies adj act ((a # as) ! Suc j)" by blast
        then show "\<not> qualifies adj act (as ! j)" by simp
      qed
    qed
    with na Suc show ?thesis by (simp add: cut_loop_Cons del: cut_loop.simps(2))
  qed
qed

lemma check_cut_none:
  assumes "\<forall>a\<in>set (apples g). \<not> qualifies (fsub now (total_pause_time g)) act a"
  shows "check_cut_action g now act =
     (if state g = PLAYING then g\<lparr>led_state := Led_error, last_led_update := now\<rparr> else g)"
  using cut_loop_none[OF assms] by (simp add: check_cut_action_def Let_def)

lemma check_cut_first:
  assumes "i < length (apples g)" "qualifies (fsub now (total_pause_time g)) act (apples g ! i)"
    "\<forall>j<i. \<not> qualifies (fsub now (total_pause_time g)) act (apples g ! j)"
  shows "check_cut_action g now act =
     g\<lparr>apples := (apples g)[i := (apples g ! i)\<lparr>sliced := True\<rparr>], sliced_count := sliced_count g + 1,
       led_state := Led_success, last_led_update := now\<rparr>"
  using cut_loop_first[OF assms] by (simp add: check_cut_action_def Let_def)

text \<open>
  Claim C1. \<open>check_cut_action\<close> keeps the length of the list. If no apple qualifies,
  no apple and no slice count changes. Otherwise, with \<open>i\<close> the first index (spawn
  order) of a qualifying apple, the list after the call is the list before with apple
  \<open>i\<close> marked sliced, and the slice count is one more. In both cases at most one
  position of the list differs from before.
\<close>

theorem check_cut_action_first_match:
  "length (apples (check_cut_action g now act)) = length (apples g) \<and>
   ((\<forall>a\<in>set (apples g). \<not> qualifies (fsub now (total_pause_time g)) act a) \<longrightarrow>
      apples (check_cut_action g now act) = apples g \<and>
      sliced_count (check_cut_action g now act) = sliced_count g) \<and>
   (\<forall>i<length (apples g).
      qualifies (fsub now (total_pause_time g)) act (apples g ! i) \<and>
      (\<forall>j<i. \<not> qualifies (fsub now (total_pause_time g)) act (apples g ! j)) \<longrightarrow>
      apples (check_cut_action g now act) = (apples g)[i := (apples g ! i)\<lparr>sliced := True\<rparr>] \<and>
      sliced_count (check_cut_action g now act) = sliced_count g + 1) \<and>
   (\<exists>i. \<forall>j. j \<noteq> i \<longrightarrow> apples (check_cut_action g now act) ! j = apples g ! j)"
proof -
  let ?q = "qualifies (fsub now (total_pause_time g)) act"
  let ?g' = "check_cut_action g now act"
  have none: "(\<forall>a\<in>set (apples g). \<not> ?q a) \<longrightarrow> apples ?g' = apples g \<and> sliced_count ?g' = sliced_count g"
    by (simp add: check_cut_none)
  have first: "\<forall>i<length (apples g). ?q (apples g ! i) \<and> (\<forall>j<i. \<not> ?q (apples g ! j)) \<longrightarrow>
      apples ?g' = (apples g)[i := (apples g ! i)\<lparr>sliced := True\<rparr>] \<and> sliced_count ?g' = sliced_count g + 1"
    by (simp add: check_cut_first)
  have cases: "(\<forall>a\<in>set (apples g). \<not> ?q a) \<or>
      (\<exists>i<length (apples g). ?q (apples g ! i) \<and> (\<forall>j<i. \<not> ?q (apples g ! j)))"
  proof (cases "\<exists>i<length (apples g). ?q (apples g ! i)")
    case False
    then show ?thesis by (auto simp: in_set_conv_nth)
  next
    case True
    define P where "P i \<longleftrightarrow> i < length (apples g) \<and> ?q (apples g ! i)" for i
    from True have ex: "\<exists>i. P i" by (auto simp: P_def)
    define m where "m = (LEAST i. P i)"
    have "P m" unfolding m_def using ex by (auto intro: LeastI)
    moreover have "\<forall>j<m. \<not> ?q (apples g ! j)"
    proof (intro allI impI notI)
      fix j assume "j < m" "?q (apples g ! j)"
      moreover from \<open>P m\<close> \<open>j < m\<close> have "j < length (apples g)" by (simp add: P_def)
      ultimately have "P j" by (simp add: P_def)
      then have "m \<le> j" unfolding m_def by (rule Least_le)
      with \<open>j < m\<close> show False by simp
    qed
    ultimately show ?thesis by (auto simp: P_def)
  qed
  have len: "length (apples ?g') = length (apples g)"
    using cases none first by auto
  have one: "\<exists>i. \<forall>j. j \<noteq> i \<longrightarrow> apples ?g' ! j = apples g ! j"
    using cases
  proof
    assume "\<forall>a\<in>set (apples g). \<not> ?q a"
    with none show ?thesis by simp
  next
    assume "\<exists>i<length (apples g). ?q (apples g ! i) \<and> (\<forall>j<i. \<not> ?q (apples g ! j))"
    then obtain i where "i < length (apples g)" "?q (apples g ! i)" "\<forall>j<i. \<not> ?q (apples g ! j)" by blast
    with first have "apples ?g' = (apples g)[i := (apples g ! i)\<lparr>sliced := True\<rparr>]" by blast
    then have "\<forall>j. j \<noteq> i \<longrightarrow> apples ?g' ! j = apples g ! j" by simp
    then show ?thesis by blast
  qed
  from len none first one show ?thesis by blast
qed

theorem check_cut_action_first_match_witness:
  "qualifies 2 Forward ((Apple Top 20 0)\<lparr>pos_y := 10, entered_valid_zone := True, valid_zone_entry_time := Some (1 / 2)\<rparr>) \<and>
   qualifies 2 Forward ((Apple Top 20 1)\<lparr>pos_y := 10, entered_valid_zone := True, valid_zone_entry_time := Some (3 / 2)\<rparr>) \<and>
   apples (check_cut_action
      ((Game_attributes 0)\<lparr>state := PLAYING, apples :=
         [Apple Bottom 20 0,
          (Apple Top 20 0)\<lparr>pos_y := 10, entered_valid_zone := True, valid_zone_entry_time := Some (1 / 2)\<rparr>,
          (Apple Top 20 1)\<lparr>pos_y := 10, entered_valid_zone := True, valid_zone_entry_time := Some (3 / 2)\<rparr>]\<rparr>)
      2 Forward) =
     [Apple Bottom 20 0,
      (Apple Top 20 0)\<lparr>pos_y := 10, entered_valid_zone := True, valid_zone_entry_time := Some (1 / 2), sliced := True\<rparr>,
      (Apple Top 20 1)\<lparr>pos_y := 10, entered_valid_zone := True, valid_zone_entry_time := Some (3 / 2)\<rparr>] \<and>
   sliced_count (check_cut_action
      ((Game_attributes 0)\<lparr>state := PLAYING, apples :=
         [Apple Bottom 20 0,
          (Apple Top 20 0)\<lparr>pos_y := 10, entered_valid_zone := True, valid_zone_entry_time := Some (1 / 2)\<rparr>,
          (Apple Top 20 1)\<lparr>pos_y := 10, entered_valid_zone := True, valid_zone_entry_time := Some (3 / 2)\<rparr>]\<rparr>)
      2 Forward) = 1"
proof -
  let ?b = "Apple Bottom 20 0"
  let ?a1 = "(Apple Top 20 0)\<lparr>pos_y := 10, entered_valid_zone := True, valid_zone_entry_time := Some (1 / 2)\<rparr>"
  let ?a2 = "(Apple Top 20 1)\<lparr>pos_y := 10, entered_valid_zone := True, valid_zone_entry_time := Some (3 / 2)\<rparr>"
  let ?g = "(Game_attributes 0)\<lparr>state := PLAYING, apples := [?b, ?a1, ?a2]\<rparr>"
  have q1: "qualifies 2 Forward ?a1" by (simp add: qualifies_def Apple_Top geom fsub_def)
  have q2: "qualifies 2 Forward ?a2" by (simp add: qualifies_def Apple_Top geom fsub_def)
  have qb: "\<not> qualifies 2 Forward ?b" by (simp add: qualifies_def Apple_flags)
  have tp: "total_pause_time ?g = 0" "sliced_count ?g = 0" "apples ?g = [?b, ?a1, ?a2]"
    by (simp_all add: Game_attributes_def)
  have pre: "qualifies (fsub 2 (total_pause_time ?g)) Forward (apples ?g ! 1) \<and>
      (\<forall>j<1. \<not> qualifies (fsub 2 (total_pause_time ?g)) Forward (apples ?g ! j))"
    using q1 qb by (simp add: tp fsub_def)
  from check_cut_action_first_match[of ?g 2 Forward] have
    "\<forall>i<length (apples ?g).
      qualifies (fsub 2 (total_pause_time ?g)) Forward (apples ?g ! i) \<and>
      (\<forall>j<i. \<not> qualifies (fsub 2 (total_pause_time ?g)) Forward (apples ?g ! j)) \<longrightarrow>
      apples (check_cut_action ?g 2 Forward) = (apples ?g)[i := (apples ?g ! i)\<lparr>sliced := True\<rparr>] \<and>
      sliced_count (check_cut_action ?g 2 Forward) = sliced_count ?g + 1"
    by blast
  from this[rule_format, of 1] pre
  have "apples (check_cut_action ?g 2 Forward) = (apples ?g)[1 := (apples ?g ! 1)\<lparr>sliced := True\<rparr>] \<and>
      sliced_count (check_cut_action ?g 2 Forward) = sliced_count ?g + 1"
    by (simp add: tp fsub_def)
  then have "apples (check_cut_action ?g 2 Forward) = [?b, ?a1\<lparr>sliced := True\<rparr>, ?a2] \<and>
      sliced_count (check_cut_action ?g 2 Forward) = 1"
    by (simp add: tp)
  with q1 q2 show ?thesis by blast
qed

text \<open>
  Claim C8. While the session is Playing, an action that no apple qualifies for changes
  the LED state to error and records the clock value of the call; every other attribute
  of the game, the apples and the slice count among them, is as before. The method
  returns normally: \<open>check_cut_action\<close> has no error result.
\<close>

theorem check_cut_action_miss:
  "state g = PLAYING \<Longrightarrow> \<forall>a\<in>set (apples g). \<not> qualifies (fsub now (total_pause_time g)) act a \<Longrightarrow>
   check_cut_action g now act = g\<lparr>led_state := Led_error, last_led_update := now\<rparr>"
  by (simp add: check_cut_none)

theorem check_cut_action_miss_witness:
  "check_cut_action ((Game_attributes 0)\<lparr>state := PLAYING, apples := [Apple Bottom 20 0]\<rparr>) 2 Forward =
     (Game_attributes 0)\<lparr>state := PLAYING, apples := [Apple Bottom 20 0],
        led_state := Led_error, last_led_update := 2\<rparr>"
  using check_cut_action_miss[of "(Game_attributes 0)\<lparr>state := PLAYING, apples := [Apple Bottom 20 0]\<rparr>" 2 Forward]
  by (simp add: qualifies_def Apple_flags)

subsection \<open>Spawn scheduler\<close>

lemma spawn_loop_closed:
  assumes "current_level g = Some lv"
  shows "spawn_loop c n g =
     Some (g\<lparr>apples := apples g @
        map (\<lambda>i. Apple (c i) (SPEEDS (lv_speed lv)) (fadd (game_start_time g) (fmul (float_of_int (int i)) (apple_spawn_interval g))))
          [length (apples g)..<nat n]\<rparr>)"
  using assms
proof (induction "nat n - length (apples g)" arbitrary: g)
  case 0
  then have "\<not> int (length (apples g)) < n" by linarith
  moreover from 0 have "[length (apples g)..<nat n] = []" by simp
  ultimately show ?case by (subst spawn_loop.simps) simp
next
  case (Suc k)
  let ?mk = "\<lambda>i. Apple (c i) (SPEEDS (lv_speed lv)) (fadd (game_start_time g) (fmul (float_of_int (int i)) (apple_spawn_interval g)))"
  let ?g1 = "spawn_apple_at_time g (c (length (apples g)))
               (fadd (game_start_time g) (fmul (float_of_int (int (length (apples g)))) (apple_spawn_interval g)))"
  from Suc.hyps(2) have lt: "length (apples g) < nat n" by linarith
  then have cond: "int (length (apples g)) < n" by linarith
  have g1: "?g1 = g\<lparr>apples := apples g @ [?mk (length (apples g))]\<rparr>"
    using Suc.prems by (simp add: spawn_apple_at_time_def)
  have k: "k = nat n - length (apples ?g1)" using Suc.hyps(2) by (simp add: g1)
  have lv1: "current_level ?g1 = Some lv" using Suc.prems by (simp add: g1)
  have "spawn_loop c n g = spawn_loop c n ?g1"
    using cond by (subst spawn_loop.simps) simp
  also have "\<dots> = Some (?g1\<lparr>apples := apples ?g1 @
        map (\<lambda>i. Apple (c i) (SPEEDS (lv_speed lv)) (fadd (game_start_time ?g1) (fmul (float_of_int (int i)) (apple_spawn_interval ?g1))))
          [length (apples ?g1)..<nat n]\<rparr>)"
    by (rule Suc.hyps(1)[OF k lv1])
  also have "\<dots> = Some (g\<lparr>apples := apples g @ map ?mk [length (apples g)..<nat n]\<rparr>)"
    using lt by (simp add: g1 upt_conv_Cons)
  finally show ?case .
qed

lemma update_ok:
  assumes "apple_ok a"
  shows "\<exists>a'. update a t = Inr a' \<and> apple_ok a' \<and> start_time a' = start_time a"
proof (cases "sliced a \<or> expired a")
  case True
  with assms show ?thesis by (simp add: update_def)
next
  case False
  show ?thesis
  proof (cases "valid_zone_entry_time a")
    case None
    with assms False show ?thesis
      by (simp add: update_def move_def Let_def apple_ok_def)
  next
    case (Some e)
    with assms False show ?thesis
      by (simp add: update_def move_def Let_def apple_ok_def)
  qed
qed

lemma update_all_ok:
  assumes "\<forall>a\<in>set as. apple_ok a"
  shows "\<exists>as'. update_all as t = Inr as' \<and> length as' = length as \<and> (\<forall>a\<in>set as'. apple_ok a) \<and>
     map start_time as' = map start_time as"
  using assms
proof (induction as)
  case Nil
  then show ?case by simp
next
  case (Cons a as)
  from Cons.prems have "apple_ok a" by simp
  from update_ok[OF this, of t] obtain a' where
    a': "update a t = Inr a'" "apple_ok a'" "start_time a' = start_time a" by blast
  from Cons have "\<exists>as'. update_all as t = Inr as' \<and> length as' = length as \<and> (\<forall>a\<in>set as'. apple_ok a) \<and>
     map start_time as' = map start_time as" by simp
  then obtain as' where as': "update_all as t = Inr as'" "length as' = length as"
    "\<forall>a\<in>set as'. apple_ok a" "map start_time as' = map start_time as" by blast
  from a' as' show ?case by simp
qed

lemma apple_ok_new: "apple_ok (Apple d s t)"
  by (simp add: apple_ok_def Apple_def Let_def)

lemma start_time_new: "start_time (Apple d s t) = t"
  by (simp add: Apple_def Let_def)

lemma py_int_nonneg: "0 \<le> v \<Longrightarrow> py_int v = \<lfloor>v\<rfloor>"
  by (simp add: py_int_def)

lemma scheduled_count_pos:
  assumes "0 < lv_apples lv" "0 < cadence lv" "0 \<le> e"
  shows "1 \<le> scheduled_count lv e"
proof -
  have "0 \<le> fdiv e (cadence lv)" using assms(2,3) by (simp add: fdiv_nonneg)
  then have "0 \<le> py_int (fdiv e (cadence lv))" by (simp add: py_int_nonneg)
  with assms(1) show ?thesis by (simp add: scheduled_count_def)
qed

lemma scheduled_count_mono:
  assumes "0 < cadence lv" "0 \<le> e" "e \<le> e'"
  shows "scheduled_count lv e \<le> scheduled_count lv e'"
proof -
  have le: "fdiv e (cadence lv) \<le> fdiv e' (cadence lv)"
    using assms(1,3) by (rule fdiv_mono_left)
  have n: "0 \<le> fdiv e (cadence lv)" "0 \<le> fdiv e' (cadence lv)"
    using assms by (simp_all add: fdiv_nonneg)
  from le have "\<lfloor>fdiv e (cadence lv)\<rfloor> \<le> \<lfloor>fdiv e' (cadence lv)\<rfloor>" by (rule floor_mono)
  then show ?thesis using n by (simp add: scheduled_count_def py_int_nonneg min_le_iff_disj)
qed

lemma update_playing_tick:
  assumes inv: "in_level g lv" and e0: "0 \<le> elapsed_time g t"
    and e1: "0 < fsub (float_of_int (lv_time lv)) (elapsed_time g t)"
  shows "\<exists>g'. update_playing c g t = Some (Inr g') \<and> in_level g' lv \<and>
     game_start_time g' = game_start_time g \<and> total_pause_time g' = total_pause_time g \<and>
     state g' = state g \<and>
     int (length (apples g')) = max (int (length (apples g))) (scheduled_count lv (elapsed_time g t))"
proof -
  from inv have lv: "current_level g = Some lv" and pa: "0 < lv_apples lv" and cpos: "0 < cadence lv"
    and iv: "apple_spawn_interval g = cadence lv" and ok: "\<forall>a\<in>set (apples g). apple_ok a"
    and st: "\<forall>i<length (apples g). start_time (apples g ! i) = fadd (game_start_time g) (fmul (float_of_int (int i)) (cadence lv))"
    by (simp_all add: in_level_def)
  define e where "e = elapsed_time g t"
  define n where "n = scheduled_count lv e"
  define mk where "mk = (\<lambda>i. Apple (c i) (SPEEDS (lv_speed lv)) (fadd (game_start_time g) (fmul (float_of_int (int i)) (apple_spawn_interval g))))"
  define g1 where "g1 = g\<lparr>apples := apples g @ map mk [length (apples g)..<nat n]\<rparr>"
  have rem: "remaining_time g t = Inr (fsub (float_of_int (lv_time lv)) e)"
    by (simp add: remaining_time_def lv e_def)
  have pos: "\<not> fsub (float_of_int (lv_time lv)) e \<le> 0" using e1 by (simp add: e_def)
  have nz: "apple_spawn_interval g \<noteq> 0" using cpos iv by simp
  have n_eq: "min (py_int (fdiv e (apple_spawn_interval g)) + 1) (lv_apples lv) = n"
    by (simp add: iv n_def scheduled_count_def)
  have n1: "1 \<le> n" unfolding n_def using scheduled_count_pos[OF pa cpos] e0 by (simp add: e_def)
  have sl: "spawn_loop c n g = Some g1"
    unfolding g1_def mk_def by (rule spawn_loop_closed[OF lv])
  have ok1: "\<forall>a\<in>set (apples g1). apple_ok a"
    using ok by (auto simp: g1_def mk_def apple_ok_new)
  from update_all_ok[OF ok1, of "adjusted_time g t"] obtain as' where
    ua: "update_all (apples g1) (adjusted_time g t) = Inr as'" and len: "length as' = length (apples g1)"
    and ok': "\<forall>a\<in>set as'. apple_ok a" and sts: "map start_time as' = map start_time (apples g1)"
    by blast
  define g' where "g' = (if fsub (float_of_int (lv_time lv)) e \<le> 10
                         then g1\<lparr>apples := as', led_state := Led_warning\<rparr> else g1\<lparr>apples := as'\<rparr>)"
  have res: "update_playing c g t = Some (Inr g')"
    using rem pos nz lv n_eq sl ua
    by (simp add: update_playing_def Let_def e_def[symmetric] g'_def)
  have ap: "apples g' = as'" by (simp add: g'_def)
  have fields: "current_level g' = Some lv" "apple_spawn_interval g' = cadence lv"
    "game_start_time g' = game_start_time g" "total_pause_time g' = total_pause_time g"
    "state g' = state g"
    by (simp_all add: g'_def g1_def lv iv)
  have len1: "length (apples g1) = max (length (apples g)) (nat n)"
    by (simp add: g1_def)
  have lenint: "int (length (apples g')) = max (int (length (apples g))) n"
    using n1 by (simp add: ap len len1)
  have st': "\<forall>i<length (apples g'). start_time (apples g' ! i) = fadd (game_start_time g') (fmul (float_of_int (int i)) (cadence lv))"
  proof (intro allI impI)
    fix i assume i: "i < length (apples g')"
    then have i1: "i < length (apples g1)" by (simp add: ap len)
    have "start_time (apples g' ! i) = map start_time as' ! i" using i by (simp add: ap)
    also have "\<dots> = start_time (apples g1 ! i)" using i1 by (simp add: sts)
    also have "\<dots> = fadd (game_start_time g) (fmul (float_of_int (int i)) (cadence lv))"
    proof (cases "i < length (apples g)")
      case True
      then show ?thesis using st by (simp add: g1_def nth_append)
    next
      case False
      then have "apples g1 ! i = map mk [length (apples g)..<nat n] ! (i - length (apples g))"
        by (simp add: g1_def nth_append)
      also have "\<dots> = mk i" using False i1 by (simp add: g1_def)
      finally show ?thesis by (simp add: mk_def start_time_new iv)
    qed
    finally show "start_time (apples g' ! i) = fadd (game_start_time g') (fmul (float_of_int (int i)) (cadence lv))"
      by (simp add: fields)
  qed
  have "in_level g' lv"
    using fields pa cpos ok' st' by (simp add: in_level_def ap)
  with res fields lenint show ?thesis by (auto simp: n_def e_def)
qed

lemma elapsed_time_cong:
  "game_start_time g' = game_start_time g \<Longrightarrow> total_pause_time g' = total_pause_time g \<Longrightarrow>
   elapsed_time g' t = elapsed_time g t"
  by (simp add: elapsed_time_def adjusted_time_def)

lemma elapsed_time_mono: "t \<le> t' \<Longrightarrow> elapsed_time g t \<le> elapsed_time g t'"
  by (simp add: elapsed_time_def adjusted_time_def fsub_mono_left)

lemma play_ticks_seq:
  assumes "in_level g lv" "sorted ts"
    "\<forall>t\<in>set ts. 0 \<le> elapsed_time g t \<and> 0 < fsub (float_of_int (lv_time lv)) (elapsed_time g t) \<and>
        int (length (apples g)) \<le> scheduled_count lv (elapsed_time g t)"
  shows "\<exists>g'. play_ticks c g ts = Some (Inr g') \<and> in_level g' lv \<and>
     game_start_time g' = game_start_time g \<and> total_pause_time g' = total_pause_time g \<and>
     state g' = state g \<and>
     (ts \<noteq> [] \<longrightarrow> int (length (apples g')) = scheduled_count lv (elapsed_time g (last ts))) \<and>
     (ts = [] \<longrightarrow> g' = g)"
  using assms
proof (induction ts arbitrary: g)
  case Nil
  then show ?case by simp
next
  case (Cons t ts)
  from Cons.prems(1) have pa: "0 < lv_apples lv" and cpos: "0 < cadence lv"
    by (simp_all add: in_level_def)
  from Cons.prems(3) have e0: "0 \<le> elapsed_time g t"
    and e1: "0 < fsub (float_of_int (lv_time lv)) (elapsed_time g t)"
    and le: "int (length (apples g)) \<le> scheduled_count lv (elapsed_time g t)"
    by simp_all
  from update_playing_tick[OF Cons.prems(1) e0 e1, of c] obtain g1 where
    tick: "update_playing c g t = Some (Inr g1)" and inv1: "in_level g1 lv"
    and gs: "game_start_time g1 = game_start_time g" and tp: "total_pause_time g1 = total_pause_time g"
    and st: "state g1 = state g"
    and len: "int (length (apples g1)) = max (int (length (apples g))) (scheduled_count lv (elapsed_time g t))"
    by blast
  from len le have len1: "int (length (apples g1)) = scheduled_count lv (elapsed_time g t)" by simp
  have el: "\<And>u. elapsed_time g1 u = elapsed_time g u" by (rule elapsed_time_cong[OF gs tp])
  have srt: "sorted ts" using Cons.prems(2) by simp
  have pre: "\<forall>u\<in>set ts. 0 \<le> elapsed_time g1 u \<and> 0 < fsub (float_of_int (lv_time lv)) (elapsed_time g1 u) \<and>
        int (length (apples g1)) \<le> scheduled_count lv (elapsed_time g1 u)"
  proof
    fix u assume u: "u \<in> set ts"
    with Cons.prems(2) have "t \<le> u" by auto
    then have "scheduled_count lv (elapsed_time g t) \<le> scheduled_count lv (elapsed_time g u)"
      by (intro scheduled_count_mono[OF cpos e0] elapsed_time_mono)
    with Cons.prems(3) u len1
    show "0 \<le> elapsed_time g1 u \<and> 0 < fsub (float_of_int (lv_time lv)) (elapsed_time g1 u) \<and>
        int (length (apples g1)) \<le> scheduled_count lv (elapsed_time g1 u)"
      by (simp add: el)
  qed
  from Cons.IH[OF inv1 srt pre] obtain g' where
    r: "play_ticks c g1 ts = Some (Inr g')" and inv': "in_level g' lv"
    and gs': "game_start_time g' = game_start_time g1" and tp': "total_pause_time g' = total_pause_time g1"
    and st': "state g' = state g1"
    and len': "ts \<noteq> [] \<longrightarrow> int (length (apples g')) = scheduled_count lv (elapsed_time g1 (last ts))"
    and same: "ts = [] \<longrightarrow> g' = g1"
    by blast
  have "play_ticks c g (t # ts) = Some (Inr g')" using tick r by simp
  moreover have "int (length (apples g')) = scheduled_count lv (elapsed_time g (last (t # ts)))"
  proof (cases "ts = []")
    case True
    with same len1 show ?thesis by simp
  next
    case False
    with len' show ?thesis by (simp add: el)
  qed
  ultimately show ?case using inv' gs' tp' st' gs tp st by simp
qed

lemma in_level_start_times:
  "in_level g lv \<Longrightarrow> i < length (apples g) \<Longrightarrow>
   start_time (apples g ! i) = fadd (game_start_time g) (fmul (float_of_int (int i)) (cadence lv))"
  by (simp add: in_level_def)

lemma scheduled_count_le: "scheduled_count lv e \<le> lv_apples lv"
  by (simp add: scheduled_count_def)

lemma play_ticks_prefix:
  assumes lv: "current_level g = Some lv" and pa: "0 < lv_apples lv" and pt: "0 < cadence lv"
    and iv: "apple_spawn_interval g = cadence lv" and em: "apples g = []"
    and srt: "sorted ts"
    and el: "\<forall>t\<in>set ts. 0 \<le> elapsed_time g t \<and> 0 < fsub (float_of_int (lv_time lv)) (elapsed_time g t)"
    and k: "k \<le> length ts"
  shows "\<exists>g'. play_ticks c g (take k ts) = Some (Inr g') \<and> in_level g' lv \<and>
     game_start_time g' = game_start_time g \<and>
     int (length (apples g')) = (if k = 0 then 0 else scheduled_count lv (elapsed_time g (ts ! (k - 1))))"
proof -
  have inv: "in_level g lv" using lv pa pt iv em by (simp add: in_level_def)
  have s: "sorted (take k ts)" using srt by (rule sorted_wrt_take)
  have pre: "\<forall>t\<in>set (take k ts). 0 \<le> elapsed_time g t \<and> 0 < fsub (float_of_int (lv_time lv)) (elapsed_time g t) \<and>
        int (length (apples g)) \<le> scheduled_count lv (elapsed_time g t)"
  proof
    fix t assume "t \<in> set (take k ts)"
    then have t: "t \<in> set ts" by (rule in_set_takeD)
    with el have e: "0 \<le> elapsed_time g t" "0 < fsub (float_of_int (lv_time lv)) (elapsed_time g t)" by simp_all
    from scheduled_count_pos[OF pa pt e(1)] e em
    show "0 \<le> elapsed_time g t \<and> 0 < fsub (float_of_int (lv_time lv)) (elapsed_time g t) \<and>
        int (length (apples g)) \<le> scheduled_count lv (elapsed_time g t)" by simp
  qed
  from play_ticks_seq[OF inv s pre, of c] obtain g' where
    r: "play_ticks c g (take k ts) = Some (Inr g')" and inv': "in_level g' lv"
    and gs: "game_start_time g' = game_start_time g"
    and len: "take k ts \<noteq> [] \<longrightarrow> int (length (apples g')) = scheduled_count lv (elapsed_time g (last (take k ts)))"
    and same: "take k ts = [] \<longrightarrow> g' = g"
    by blast
  have "int (length (apples g')) = (if k = 0 then 0 else scheduled_count lv (elapsed_time g (ts ! (k - 1))))"
  proof (cases "k = 0")
    case True
    with same em show ?thesis by simp
  next
    case False
    with k have ne: "take k ts \<noteq> []" by auto
    from False k ne have "last (take k ts) = ts ! (k - 1)"
      by (simp add: last_conv_nth min_absorb2)
    with len ne False show ?thesis by simp
  qed
  with r inv' gs show ?thesis by blast
qed

lemma LEVELS_0: "LEVELS ! 0 = \<lparr>lv_name = ''E1:EZ 10A 60S'', lv_speed = Slow, lv_apples = 10, lv_time = 60, lv_difficulty = Easy\<rparr>"
  by (simp add: LEVELS_def)

lemma start_level_ok:
  assumes "0 \<le> idx" "idx < int (length LEVELS)"
  shows "start_level g idx now = Inr (True,
     g\<lparr>current_level_index := idx, current_level := Some (LEVELS ! nat idx), apples := [],
       sliced_count := 0, game_start_time := now, last_apple_spawn_time := now,
       total_pause_time := 0,
       apple_spawn_interval :=
         (if lv_apples (LEVELS ! nat idx) > 0
          then int_true_divide (lv_time (LEVELS ! nat idx)) (lv_apples (LEVELS ! nat idx))
          else 999),
       state := PLAYING, led_state := Led_playing\<rparr>)"
  using assms by (simp add: start_level_def py_index_def Let_def)

lemma LEVELS_positive: "lv \<in> set LEVELS \<Longrightarrow> 0 < lv_apples lv \<and> 0 < lv_time lv"
  by (auto simp: LEVELS_def)

lemma cadence_ge_half:
  assumes "0 < lv_apples lv" "lv_apples lv \<le> 2 * lv_time lv"
  shows "1 / 2 \<le> cadence lv"
proof -
  have "real_of_int (lv_apples lv) \<le> 2 * real_of_int (lv_time lv)"
    using assms(2) by linarith
  then have "1 / 2 \<le> real_of_int (lv_time lv) / real_of_int (lv_apples lv)"
    using assms(1) by (simp add: pos_le_divide_eq)
  then have "float_round (1 / 2) \<le> float_round (real_of_int (lv_time lv) / real_of_int (lv_apples lv))"
    by (rule float_round_mono)
  then show ?thesis by (simp add: cadence_def int_true_divide_def)
qed

lemma LEVELS_cadence_pos:
  assumes "lv \<in> set LEVELS"
  shows "0 < cadence lv"
proof -
  from assms have "0 < lv_apples lv" "lv_apples lv \<le> 2 * lv_time lv" by (auto simp: LEVELS_def)
  from cadence_ge_half[OF this] show ?thesis by simp
qed

lemma float_round_elapsed: "float_round (elapsed_time g t) = elapsed_time g t"
  by (simp add: elapsed_time_def)

lemma fr_35_30: "float_round (35 / 30) = 5254199565265579 / 4503599627370496"
proof -
  have "float_round (35 / 30) = real_of_int 5254199565265579 / 2 powi (52 - 0)"
    by (rule float_round_eval) (simp_all add: power_int_minus round_half_even_def)
  also have "\<dots> = 5254199565265579 / 4503599627370496" by simp
  finally show ?thesis .
qed

lemma fr_M3_half_time:
  "float_round ((35 / 2) / (5254199565265579 / 4503599627370496)) = 8444249301319679 / 562949953421312"
proof -
  have "float_round ((35 / 2) / (5254199565265579 / 4503599627370496)) =
        real_of_int 8444249301319679 / 2 powi (52 - 3)"
    by (rule float_round_eval) (simp_all add: power_int_minus round_half_even_def)
  also have "\<dots> = 8444249301319679 / 562949953421312" by simp
  finally show ?thesis .
qed

lemma LEVELS_6: "LEVELS ! 6 = \<lparr>lv_name = ''M3:MD 30A 35S'', lv_speed = Very_fast, lv_apples = 30, lv_time = 35,
      lv_difficulty = Medium_difficulty\<rparr>"
  by (simp add: LEVELS_def)

lemma cadence_M3: "cadence (LEVELS ! 6) = 5254199565265579 / 4503599627370496"
  using fr_35_30 by (simp add: cadence_def int_true_divide_def LEVELS_6)

lemma scheduled_count_M3: "scheduled_count (LEVELS ! 6) (35 / 2) = 15"
proof -
  have d: "fdiv (35 / 2) (cadence (LEVELS ! 6)) = 8444249301319679 / 562949953421312"
    unfolding fdiv_def cadence_M3 by (rule fr_M3_half_time)
  have f: "\<lfloor>8444249301319679 / 562949953421312 :: real\<rfloor> = 14" by (simp add: floor_eq_iff)
  have "py_int (fdiv (35 / 2) (cadence (LEVELS ! 6))) = 14"
    unfolding d py_int_def using f by simp
  moreover have "lv_apples (LEVELS ! 6) = 30" by (simp add: LEVELS_6)
  ultimately show ?thesis unfolding scheduled_count_def by simp
qed

lemma fdiv_below_six:
  assumes fl: "float_round e = e" and e0: "0 \<le> e" and e6: "e < 6"
  shows "fdiv e 6 < 1"
proof (rule ccontr)
  assume "\<not> fdiv e 6 < 1"
  then have ge: "1 \<le> float_round (e / 6)" by (simp add: fdiv_def)
  have e3: "3 \<le> e"
  proof (rule ccontr)
    assume "\<not> 3 \<le> e"
    then have "e / 6 \<le> 1 / 2" by simp
    then have "float_round (e / 6) \<le> float_round (1 / 2)" by (rule float_round_mono)
    with ge show False by simp
  qed
  have b1: "2 powi (- 1) \<le> \<bar>e / 6\<bar>" "\<bar>e / 6\<bar> < 2 powi (- 1 + 1)"
    using e3 e6 by (simp_all add: power_int_minus)
  have "float_exponent (e / 6) = - 53" using float_exponent_eq[OF b1] by simp
  with float_round_error[of "e / 6"] have "\<bar>float_round (e / 6) - e / 6\<bar> \<le> 2 powi (- 53) / 2"
    by simp
  moreover have "(2::real) powi (- 53) / 2 = 1 / 18014398509481984"
    by (simp add: power_int_minus)
  ultimately have "\<bar>float_round (e / 6) - e / 6\<bar> \<le> 1 / 18014398509481984" by simp
  then have "float_round (e / 6) - e / 6 \<le> 1 / 18014398509481984" by linarith
  with ge have "1 - 1 / 18014398509481984 \<le> e / 6" by linarith
  then have low: "6 - 6 / 18014398509481984 \<le> e" by linarith
  then have e4: "4 \<le> e" by simp
  have b2: "2 powi 2 \<le> \<bar>e\<bar>" "\<bar>e\<bar> < 2 powi (2 + 1)"
    using e4 e6 by simp_all
  define n where "n = round_half_even (e / 2 powi max (2 - 52) (- 1074))"
  have "float_round e = real_of_int n * 2 powi max (2 - 52) (- 1074)"
    unfolding n_def by (rule float_round_binade[OF b2])
  then have en: "e = real_of_int n / 1125899906842624"
    using fl by (simp add: power_int_minus)
  with e6 have "real_of_int n < 6755399441055744" by simp
  then have "n < 6755399441055744" by linarith
  then have "n \<le> 6755399441055743" by simp
  then have "real_of_int n \<le> 6755399441055743" by linarith
  then have "e \<le> 6755399441055743 / 1125899906842624" by (simp add: en)
  with low show False by simp
qed

lemma scenario_10_60:
  assumes "lv_apples lv = 10" "lv_time lv = 60"
  shows "cadence lv = 6"
    and "0 \<le> elapsed_time g t \<Longrightarrow> elapsed_time g t < 6 \<Longrightarrow> scheduled_count lv (elapsed_time g t) = 1"
    and "scheduled_count lv 6 = 2"
proof -
  show c: "cadence lv = 6" using assms by (simp add: cadence_def int_true_divide_def)
  show "scheduled_count lv 6 = 2"
    using assms by (simp add: scheduled_count_def c fdiv_def py_int_def)
  assume e: "0 \<le> elapsed_time g t" "elapsed_time g t < 6"
  have "fdiv (elapsed_time g t) 6 < 1"
    using float_round_elapsed e by (rule fdiv_below_six)
  moreover have "0 \<le> fdiv (elapsed_time g t) 6" using e(1) by (simp add: fdiv_nonneg)
  ultimately have "\<lfloor>fdiv (elapsed_time g t) 6\<rfloor> = 0" by (simp add: floor_eq_iff)
  then show "scheduled_count lv (elapsed_time g t) = 1"
    using assms \<open>0 \<le> fdiv (elapsed_time g t) 6\<close> by (simp add: scheduled_count_def c py_int_def)
qed

text \<open>
  Claim C5, as amended. Take a state at the start of a level (level set,
  empty apple list, spawn interval equal to the stored cadence, the float quotient
  duration / target, which is positive) and call \<open>update_playing\<close> at non-decreasing
  clock values whose pause-adjusted elapsed time \<open>e\<close> is not negative and leaves a
  positive remaining time, so that the session stays Playing. After every tick the call
  has returned and the number of apples is \<open>min (int (e / cadence) + 1) target\<close> with the
  float quotient of \<open>e\<close> by the stored cadence; it is never above the target and never
  below the number after an earlier tick; apple \<open>i\<close> has the spawn time
  \<open>game_start_time + i * cadence\<close> in float arithmetic; and for a level of 10 apples in
  60 seconds the cadence is exactly 6 and the number is 1 while \<open>e < 6\<close> and 2 at
  \<open>e = 6\<close>.
\<close>

theorem spawn_schedule:
  assumes "current_level g = Some lv" "0 < lv_apples lv" "0 < cadence lv"
    "apple_spawn_interval g = cadence lv" "apples g = []" "sorted ts"
    "\<forall>t\<in>set ts. 0 \<le> elapsed_time g t \<and> 0 < fsub (float_of_int (lv_time lv)) (elapsed_time g t)"
  shows "\<forall>k\<le>length ts. \<exists>g'. play_ticks c g (take k ts) = Some (Inr g') \<and>
     (0 < k \<longrightarrow> int (length (apples g')) = scheduled_count lv (elapsed_time g (ts ! (k - 1)))) \<and>
     int (length (apples g')) \<le> lv_apples lv \<and>
     (\<forall>i<length (apples g'). start_time (apples g' ! i) =
        fadd (game_start_time g) (fmul (float_of_int (int i)) (cadence lv))) \<and>
     (\<forall>j\<le>k. \<exists>g''. play_ticks c g (take j ts) = Some (Inr g'') \<and>
                 length (apples g'') \<le> length (apples g')) \<and>
     (0 < k \<and> lv_apples lv = 10 \<and> lv_time lv = 60 \<longrightarrow>
        cadence lv = 6 \<and>
        (elapsed_time g (ts ! (k - 1)) < 6 \<longrightarrow> length (apples g') = 1) \<and>
        (elapsed_time g (ts ! (k - 1)) = 6 \<longrightarrow> length (apples g') = 2))"
proof (intro allI impI)
  fix k assume k: "k \<le> length ts"
  let ?cnt = "\<lambda>k. if k = 0 then 0 else scheduled_count lv (elapsed_time g (ts ! (k - 1)))"
  note pre = play_ticks_prefix[OF assms(1-7), of _ c]
  from pre[OF k] obtain g' where
    r: "play_ticks c g (take k ts) = Some (Inr g')" and inv: "in_level g' lv"
    and gs: "game_start_time g' = game_start_time g"
    and len: "int (length (apples g')) = ?cnt k"
    by blast
  have el: "0 \<le> elapsed_time g (ts ! (j - 1))" if "0 < j" "j \<le> k" for j
  proof -
    from that k have "j - 1 < length ts" by simp
    then have "ts ! (j - 1) \<in> set ts" by (rule nth_mem)
    with assms(7) show ?thesis by blast
  qed
  have c1: "0 < k \<longrightarrow> int (length (apples g')) = scheduled_count lv (elapsed_time g (ts ! (k - 1)))"
    using len by simp
  have c2: "int (length (apples g')) \<le> lv_apples lv"
    using len assms(2) scheduled_count_le[of lv] by (simp split: if_splits)
  have c3: "\<forall>i<length (apples g'). start_time (apples g' ! i) =
        fadd (game_start_time g) (fmul (float_of_int (int i)) (cadence lv))"
    using in_level_start_times[OF inv] gs by simp
  have c4: "\<forall>j\<le>k. \<exists>g''. play_ticks c g (take j ts) = Some (Inr g'') \<and>
                 length (apples g'') \<le> length (apples g')"
  proof (intro allI impI)
    fix j assume j: "j \<le> k"
    with k have "j \<le> length ts" by simp
    from pre[OF this] obtain g'' where
      r'': "play_ticks c g (take j ts) = Some (Inr g'')"
      and len'': "int (length (apples g'')) = ?cnt j"
      by blast
    have "?cnt j \<le> ?cnt k"
    proof (cases "j = 0")
      case True
      have "0 \<le> int (length (apples g'))" by simp
      with len True show ?thesis by simp
    next
      case False
      with j have k0: "k \<noteq> 0" by simp
      from False j have e0: "0 \<le> elapsed_time g (ts ! (j - 1))" by (intro el) simp_all
      from False j k have "ts ! (j - 1) \<le> ts ! (k - 1)"
        by (intro sorted_nth_mono[OF assms(6)]) simp_all
      then have "elapsed_time g (ts ! (j - 1)) \<le> elapsed_time g (ts ! (k - 1))"
        by (rule elapsed_time_mono)
      with assms(3) e0 have "scheduled_count lv (elapsed_time g (ts ! (j - 1))) \<le>
                 scheduled_count lv (elapsed_time g (ts ! (k - 1)))"
        by (rule scheduled_count_mono)
      with False k0 show ?thesis by simp
    qed
    with len len'' have "length (apples g'') \<le> length (apples g')" by simp
    with r'' show "\<exists>g''. play_ticks c g (take j ts) = Some (Inr g'') \<and>
                 length (apples g'') \<le> length (apples g')" by blast
  qed
  have c5: "0 < k \<and> lv_apples lv = 10 \<and> lv_time lv = 60 \<longrightarrow>
        cadence lv = 6 \<and>
        (elapsed_time g (ts ! (k - 1)) < 6 \<longrightarrow> length (apples g') = 1) \<and>
        (elapsed_time g (ts ! (k - 1)) = 6 \<longrightarrow> length (apples g') = 2)"
  proof (intro impI conjI)
    assume h: "0 < k \<and> lv_apples lv = 10 \<and> lv_time lv = 60"
    then show "cadence lv = 6" by (simp add: scenario_10_60(1))
  next
    assume h: "0 < k \<and> lv_apples lv = 10 \<and> lv_time lv = 60" and lt: "elapsed_time g (ts ! (k - 1)) < 6"
    from h have "0 \<le> elapsed_time g (ts ! (k - 1))" by (intro el) simp_all
    with h lt have "scheduled_count lv (elapsed_time g (ts ! (k - 1))) = 1"
      by (intro scenario_10_60(2)) simp_all
    with h len show "length (apples g') = 1" by simp
  next
    assume h: "0 < k \<and> lv_apples lv = 10 \<and> lv_time lv = 60" and eq: "elapsed_time g (ts ! (k - 1)) = 6"
    from h have "scheduled_count lv 6 = 2" by (intro scenario_10_60(3)) simp_all
    with h len eq show "length (apples g') = 2" by simp
  qed
  from r c1 c2 c3 c4 c5
  show "\<exists>g'. play_ticks c g (take k ts) = Some (Inr g') \<and>
     (0 < k \<longrightarrow> int (length (apples g')) = scheduled_count lv (elapsed_time g (ts ! (k - 1)))) \<and>
     int (length (apples g')) \<le> lv_apples lv \<and>
     (\<forall>i<length (apples g'). start_time (apples g' ! i) =
        fadd (game_start_time g) (fmul (float_of_int (int i)) (cadence lv))) \<and>
     (\<forall>j\<le>k. \<exists>g''. play_ticks c g (take j ts) = Some (Inr g'') \<and>
                 length (apples g'') \<le> length (apples g')) \<and>
     (0 < k \<and> lv_apples lv = 10 \<and> lv_time lv = 60 \<longrightarrow>
        cadence lv = 6 \<and>
        (elapsed_time g (ts ! (k - 1)) < 6 \<longrightarrow> length (apples g') = 1) \<and>
        (elapsed_time g (ts ! (k - 1)) = 6 \<longrightarrow> length (apples g') = 2))"
    by blast
qed

theorem spawn_schedule_witness:
  "\<exists>G. start_level (Game_attributes 0) 0 0 = Inr (True, G) \<and>
     current_level G = Some (LEVELS ! 0) \<and> apple_spawn_interval G = cadence (LEVELS ! 0) \<and> apples G = [] \<and>
     (\<exists>g'. play_ticks (always Top) G [1, 11 / 2] = Some (Inr g') \<and> length (apples g') = 1) \<and>
     (\<exists>g'. play_ticks (always Top) G [1, 11 / 2, 6] = Some (Inr g') \<and> length (apples g') = 2 \<and>
           start_time (apples g' ! 1) = 6)"
proof -
  define G where "G = (Game_attributes 0)\<lparr>current_level_index := 0, current_level := Some (LEVELS ! nat 0),
       apples := [], sliced_count := 0, game_start_time := 0, last_apple_spawn_time := 0,
       total_pause_time := 0,
       apple_spawn_interval :=
         (if lv_apples (LEVELS ! nat 0) > 0
          then int_true_divide (lv_time (LEVELS ! nat 0)) (lv_apples (LEVELS ! nat 0))
          else 999),
       state := PLAYING, led_state := Led_playing\<rparr>"
  have st: "start_level (Game_attributes 0) 0 0 = Inr (True, G)"
    unfolding G_def by (rule start_level_ok) (simp_all add: LEVELS_def)
  have f: "current_level G = Some (LEVELS ! 0)" "apple_spawn_interval G = cadence (LEVELS ! 0)"
    "apples G = []" "game_start_time G = 0" "total_pause_time G = 0"
    by (simp_all add: G_def LEVELS_0 cadence_def)
  have p: "0 < lv_apples (LEVELS ! 0)" "0 < cadence (LEVELS ! 0)"
    "lv_apples (LEVELS ! 0) = 10" "lv_time (LEVELS ! 0) = 60"
    by (simp_all add: LEVELS_0 cadence_def int_true_divide_def)
  have el: "elapsed_time G 1 = 1" "elapsed_time G (11 / 2) = 11 / 2" "elapsed_time G 6 = 6"
    by (simp_all add: elapsed_time_def adjusted_time_def f float_ops)
  have s: "sorted [1, 11 / 2, 6 :: real]" by simp
  have r: "\<forall>t\<in>set [1, 11 / 2, 6 :: real]. 0 \<le> elapsed_time G t \<and>
        0 < fsub (float_of_int (lv_time (LEVELS ! 0))) (elapsed_time G t)"
    by (simp add: el p float_ops)
  note sched = spawn_schedule[OF f(1) p(1,2) f(2,3) s r, of "always Top", rule_format]
  from sched[of 2] obtain g2 where
    g2: "play_ticks (always Top) G (take 2 [1, 11 / 2, 6]) = Some (Inr g2)"
    and l2: "0 < (2::nat) \<and> lv_apples (LEVELS ! 0) = 10 \<and> lv_time (LEVELS ! 0) = 60 \<longrightarrow>
        cadence (LEVELS ! 0) = 6 \<and>
        (elapsed_time G ([1, 11 / 2, 6] ! (2 - 1)) < 6 \<longrightarrow> length (apples g2) = 1) \<and>
        (elapsed_time G ([1, 11 / 2, 6] ! (2 - 1)) = 6 \<longrightarrow> length (apples g2) = 2)"
    by auto
  from sched[of 3] obtain g3 where
    g3: "play_ticks (always Top) G (take 3 [1, 11 / 2, 6]) = Some (Inr g3)"
    and l3: "0 < (3::nat) \<and> lv_apples (LEVELS ! 0) = 10 \<and> lv_time (LEVELS ! 0) = 60 \<longrightarrow>
        cadence (LEVELS ! 0) = 6 \<and>
        (elapsed_time G ([1, 11 / 2, 6] ! (3 - 1)) < 6 \<longrightarrow> length (apples g3) = 1) \<and>
        (elapsed_time G ([1, 11 / 2, 6] ! (3 - 1)) = 6 \<longrightarrow> length (apples g3) = 2)"
    and s3: "\<forall>i<length (apples g3). start_time (apples g3 ! i) =
        fadd (game_start_time G) (fmul (float_of_int (int i)) (cadence (LEVELS ! 0)))"
    by auto
  have t2: "take 2 [1, 11 / 2, 6 :: real] = [1, 11 / 2]" by (simp add: numeral_2_eq_2)
  have t3: "take 3 [1, 11 / 2, 6 :: real] = [1, 11 / 2, 6]" by simp
  have n2: "[1, 11 / 2, 6 :: real] ! (2 - 1) = 11 / 2" by simp
  have n3: "[1, 11 / 2, 6 :: real] ! (3 - 1) = 6" by (simp add: numeral_2_eq_2)
  from l2 have len2: "length (apples g2) = 1" by (simp only: n2 el p) simp
  from l3 have len3: "length (apples g3) = 2" by (simp only: n3 el p) simp
  from l3 have c6: "cadence (LEVELS ! 0) = 6" by (simp only: p) simp
  from s3[rule_format, of 1] len3 have "start_time (apples g3 ! 1) = 6"
    by (simp add: f c6 float_ops)
  with st f g2 g3 len2 len3 show ?thesis by (simp only: t2 t3) blast
qed

text \<open>
  The claim C5 as stated fails. The level M3 (30 apples in 35 seconds) is started at
  clock 0 and \<open>update_playing\<close> is called at clock 17.5: the pause-adjusted elapsed
  time is 17.5, the contract \<open>min (floor (e / cadence) + 1) target\<close> with the cadence
  35 / 30 gives 16 apples, and the program spawns 15, because the stored cadence is the
  float nearest to 35 / 30, which is above it, and the float quotient of 17.5 by it is
  below 15.
\<close>

theorem spawn_count_float_counterexample:
  "start_level (Game_attributes 0) 6 0 =
     Inr (True, (Game_attributes 0)\<lparr>current_level_index := 6, current_level := Some (LEVELS ! 6),
                   apple_spawn_interval := int_true_divide 35 30, state := PLAYING,
                   led_state := Led_playing\<rparr>) \<and>
   elapsed_time ((Game_attributes 0)\<lparr>current_level_index := 6, current_level := Some (LEVELS ! 6),
                   apple_spawn_interval := int_true_divide 35 30, state := PLAYING,
                   led_state := Led_playing\<rparr>) (35 / 2) = 35 / 2 \<and>
   exact_scheduled_count (LEVELS ! 6) (35 / 2) = 16 \<and>
   apple_count (update_playing (always Top)
                 ((Game_attributes 0)\<lparr>current_level_index := 6, current_level := Some (LEVELS ! 6),
                   apple_spawn_interval := int_true_divide 35 30, state := PLAYING,
                   led_state := Led_playing\<rparr>) (35 / 2)) = Some 15"
proof -
  define G where "G = (Game_attributes 0)\<lparr>current_level_index := 6, current_level := Some (LEVELS ! 6),
                   apple_spawn_interval := int_true_divide 35 30, state := PLAYING,
                   led_state := Led_playing\<rparr>"
  have "start_level (Game_attributes 0) 6 0 = Inr (True,
     (Game_attributes 0)\<lparr>current_level_index := 6, current_level := Some (LEVELS ! nat 6), apples := [],
       sliced_count := 0, game_start_time := 0, last_apple_spawn_time := 0,
       total_pause_time := 0,
       apple_spawn_interval :=
         (if lv_apples (LEVELS ! nat 6) > 0
          then int_true_divide (lv_time (LEVELS ! nat 6)) (lv_apples (LEVELS ! nat 6))
          else 999),
       state := PLAYING, led_state := Led_playing\<rparr>)"
    by (rule start_level_ok) (simp_all add: LEVELS_def)
  also have "(Game_attributes 0)\<lparr>current_level_index := 6, current_level := Some (LEVELS ! nat 6), apples := [],
       sliced_count := 0, game_start_time := 0, last_apple_spawn_time := 0,
       total_pause_time := 0,
       apple_spawn_interval :=
         (if lv_apples (LEVELS ! nat 6) > 0
          then int_true_divide (lv_time (LEVELS ! nat 6)) (lv_apples (LEVELS ! nat 6))
          else 999),
       state := PLAYING, led_state := Led_playing\<rparr> = G"
    by (simp add: G_def Game_attributes_def LEVELS_6)
  finally have st: "start_level (Game_attributes 0) 6 0 = Inr (True, G)" .
  have f: "current_level G = Some (LEVELS ! 6)" "apple_spawn_interval G = cadence (LEVELS ! 6)"
    "apples G = []" "game_start_time G = 0" "total_pause_time G = 0"
    by (simp_all add: G_def Game_attributes_def cadence_def LEVELS_6)
  have el: "elapsed_time G (35 / 2) = 35 / 2"
    by (simp add: elapsed_time_def adjusted_time_def f float_ops)
  have inv: "in_level G (LEVELS ! 6)"
    using f(1,2,3) by (simp add: in_level_def cadence_M3) (simp add: LEVELS_6)
  have e1: "0 < fsub (float_of_int (lv_time (LEVELS ! 6))) (elapsed_time G (35 / 2))"
    by (simp add: el LEVELS_6 float_ops)
  have e0: "0 \<le> elapsed_time G (35 / 2)" by (simp add: el)
  from update_playing_tick[OF inv e0 e1, of "always Top"] obtain g' where
    "update_playing (always Top) G (35 / 2) = Some (Inr g')"
    "int (length (apples g')) = max (int (length (apples G))) (scheduled_count (LEVELS ! 6) (elapsed_time G (35 / 2)))"
    by blast
  then have cnt: "apple_count (update_playing (always Top) G (35 / 2)) = Some 15"
    by (simp add: apple_count_def el f(3) scheduled_count_M3)
  have ex: "exact_scheduled_count (LEVELS ! 6) (35 / 2) = 16"
    by (simp add: exact_scheduled_count_def LEVELS_6)
  from st el ex cnt show ?thesis unfolding G_def by (intro conjI)
qed

subsection \<open>Session reset and level start\<close>

lemma update_level_index_zero:
  "current_difficulty_index g = 0 \<Longrightarrow>
   update_level_index_from_difficulty g = Inr (g\<lparr>current_level_index := 0\<rparr>)"
  by (simp add: update_level_index_from_difficulty_def DIFFICULTY_NAMES_def py_index_def)

lemma update_game_over_confirm:
  assumes "game_over_button_last_state g = Some True" "game_over_button_press_time g = Some tp"
    "0 < tp" "fsub now tp > float_round (2 / 10)"
  shows "update_game_over g now True =
     Inr (g\<lparr>state := MENU, current_level := None, current_difficulty_index := 0,
            current_level_index := 0, led_state := Led_idle,
            game_over_button_press_time := Some 0, game_over_button_last_state := Some True\<rparr>)"
  using assms by (simp add: update_game_over_def Let_def update_level_index_zero)

text \<open>
  Claim C9. In the game-over state, a tick at which the button is down, was down at the
  tick before, and has been down for more than the confirm interval of 0.2 s (the float
  difference of the clock and the press time is above the float 0.2) puts the
  session in the menu with no current level and with difficulty index and level index
  0. \<open>start_level\<close> called on that state for a level of the table, at the instant
  \<open>t\<close>, returns true and gives a Playing session with slice count 0, no apples, start
  time \<open>t\<close>, pause time 0 and the spawn interval duration / apple target of the level
  (the float quotient).
\<close>

theorem reset_then_start_level:
  assumes "game_over_button_last_state g = Some True" "game_over_button_press_time g = Some tp"
    "0 < tp" "fsub now tp > float_round (2 / 10)" "0 \<le> idx" "idx < int (length LEVELS)"
  shows "\<exists>g1 g2. update_game_over g now True = Inr g1 \<and>
     state g1 = MENU \<and> current_level g1 = None \<and> current_difficulty_index g1 = 0 \<and>
     current_level_index g1 = 0 \<and>
     start_level g1 idx t = Inr (True, g2) \<and>
     state g2 = PLAYING \<and> sliced_count g2 = 0 \<and> apples g2 = [] \<and> game_start_time g2 = t \<and>
     total_pause_time g2 = 0 \<and> current_level g2 = Some (LEVELS ! nat idx) \<and>
     apple_spawn_interval g2 =
       int_true_divide (lv_time (LEVELS ! nat idx)) (lv_apples (LEVELS ! nat idx))"
proof -
  let ?g1 = "g\<lparr>state := MENU, current_level := None, current_difficulty_index := 0,
            current_level_index := 0, led_state := Led_idle,
            game_over_button_press_time := Some 0, game_over_button_last_state := Some True\<rparr>"
  have 1: "update_game_over g now True = Inr ?g1"
    by (rule update_game_over_confirm[OF assms(1-4)])
  have "LEVELS ! nat idx \<in> set LEVELS" using assms(5,6) by (intro nth_mem) simp
  then have pos: "0 < lv_apples (LEVELS ! nat idx)" by (simp add: LEVELS_positive)
  define g2 where "g2 = ?g1\<lparr>current_level_index := idx, current_level := Some (LEVELS ! nat idx),
       apples := [], sliced_count := 0, game_start_time := t, last_apple_spawn_time := t,
       total_pause_time := 0,
       apple_spawn_interval :=
         (if lv_apples (LEVELS ! nat idx) > 0
          then int_true_divide (lv_time (LEVELS ! nat idx)) (lv_apples (LEVELS ! nat idx))
          else 999),
       state := PLAYING, led_state := Led_playing\<rparr>"
  have 2: "start_level ?g1 idx t = Inr (True, g2)"
    unfolding g2_def by (rule start_level_ok[OF assms(5,6)])
  have 3: "state g2 = PLAYING" "sliced_count g2 = 0" "apples g2 = []" "game_start_time g2 = t"
    "total_pause_time g2 = 0" "current_level g2 = Some (LEVELS ! nat idx)"
    "apple_spawn_interval g2 =
       int_true_divide (lv_time (LEVELS ! nat idx)) (lv_apples (LEVELS ! nat idx))"
    by (simp_all add: g2_def pos)
  have 4: "state ?g1 = MENU" "current_level ?g1 = None" "current_difficulty_index ?g1 = 0"
    "current_level_index ?g1 = 0"
    by simp_all
  from 1 2 3 4 show ?thesis by blast
qed

theorem reset_then_start_level_witness:
  "\<exists>g1 g2. update_game_over
       ((Game_attributes 0)\<lparr>state := GAME_OVER, game_over_button_last_state := Some True,
           game_over_button_press_time := Some 70\<rparr>) 71 True = Inr g1 \<and>
     state g1 = MENU \<and> current_level g1 = None \<and> current_level_index g1 = 0 \<and>
     start_level g1 0 72 = Inr (True, g2) \<and>
     sliced_count g2 = 0 \<and> apples g2 = [] \<and> game_start_time g2 = 72 \<and> total_pause_time g2 = 0 \<and>
     apple_spawn_interval g2 = 6"
proof -
  let ?g = "(Game_attributes 0)\<lparr>state := GAME_OVER, game_over_button_last_state := Some True,
           game_over_button_press_time := Some 70\<rparr>"
  have h: "game_over_button_last_state ?g = Some True" "game_over_button_press_time ?g = Some 70"
    "(0::real) < 70" "fsub 71 70 > float_round (2 / 10)" "(0::int) \<le> 0" "0 < int (length LEVELS)"
    using fr_02 by (simp_all add: LEVELS_def float_ops)
  from reset_then_start_level[OF h, of 72] obtain g1 g2 where
    "update_game_over ?g 71 True = Inr g1"
    "state g1 = MENU" "current_level g1 = None" "current_level_index g1 = 0"
    "start_level g1 0 72 = Inr (True, g2)"
    "sliced_count g2 = 0" "apples g2 = []" "game_start_time g2 = 72" "total_pause_time g2 = 0"
    "apple_spawn_interval g2 = int_true_divide (lv_time (LEVELS ! nat 0)) (lv_apples (LEVELS ! nat 0))"
    by blast
  moreover have "int_true_divide (lv_time (LEVELS ! nat 0)) (lv_apples (LEVELS ! nat 0)) = 6"
    by (simp add: LEVELS_0 int_true_divide_def)
  ultimately show ?thesis by auto
qed

subsection \<open>Pause accounting\<close>

lemma countdown_shift:
  "draw_playing_remaining (g\<lparr>total_pause_time := d\<rparr>) T =
   draw_playing_remaining (g\<lparr>total_pause_time := 0\<rparr>) (fsub T d)"
  by (simp add: draw_playing_remaining_def Let_def split: option.splits)

lemma remaining_shift:
  "remaining_time (g\<lparr>total_pause_time := d\<rparr>) T = remaining_time (g\<lparr>total_pause_time := 0\<rparr>) (fsub T d)"
  by (simp add: remaining_time_def elapsed_time_def adjusted_time_def split: option.splits)

lemma update_playing_running:
  assumes lv: "current_level g = Some lv"
    and rem: "\<not> fsub (float_of_int (lv_time lv)) (elapsed_time g t) \<le> 0"
    and nz: "apple_spawn_interval g \<noteq> 0"
  shows "update_playing c g t =
    (case update_all
            (apples g @
             map (\<lambda>i. Apple (c i) (SPEEDS (lv_speed lv)) (fadd (game_start_time g) (fmul (float_of_int (int i)) (apple_spawn_interval g))))
               [length (apples g)..<
                nat (min (py_int (fdiv (elapsed_time g t) (apple_spawn_interval g)) + 1) (lv_apples lv))])
            (adjusted_time g t) of
       Inl e \<Rightarrow> Some (Inl e)
     | Inr as \<Rightarrow>
         Some (Inr (if fsub (float_of_int (lv_time lv)) (elapsed_time g t) \<le> 10
                    then g\<lparr>apples := as, led_state := Led_warning\<rparr>
                    else g\<lparr>apples := as\<rparr>)))"
proof -
  have r: "remaining_time g t = Inr (fsub (float_of_int (lv_time lv)) (elapsed_time g t))"
    by (simp add: remaining_time_def lv)
  show ?thesis
    unfolding update_playing_def r
    using rem nz
    by (simp add: lv Let_def spawn_loop_closed[OF lv] split: sum.splits)
qed

lemma update_playing_no_level:
  "current_level g = None \<Longrightarrow> update_playing c g t = Some (Inl TypeError)"
  by (simp add: update_playing_def remaining_time_def)

lemma update_playing_over:
  assumes "current_level g = Some lv" "fsub (float_of_int (lv_time lv)) (elapsed_time g t) \<le> 0"
  shows "update_playing c g t = Some (Inr (g\<lparr>state := GAME_OVER, led_state := Led_game_over\<rparr>))"
proof -
  have r: "remaining_time g t = Inr (fsub (float_of_int (lv_time lv)) (elapsed_time g t))"
    by (simp add: remaining_time_def assms(1))
  show ?thesis unfolding update_playing_def r using assms(2) by simp
qed

lemma update_playing_zero_interval:
  assumes "current_level g = Some lv" "\<not> fsub (float_of_int (lv_time lv)) (elapsed_time g t) \<le> 0"
    "apple_spawn_interval g = 0"
  shows "update_playing c g t = Some (Inl ZeroDivisionError)"
proof -
  have r: "remaining_time g t = Inr (fsub (float_of_int (lv_time lv)) (elapsed_time g t))"
    by (simp add: remaining_time_def assms(1))
  show ?thesis unfolding update_playing_def r using assms(2,3) by simp
qed

lemma update_playing_shift:
  "update_playing c (g\<lparr>total_pause_time := d\<rparr>) T =
   map_option (map_sum id (\<lambda>g'. g'\<lparr>total_pause_time := d\<rparr>))
     (update_playing c (g\<lparr>total_pause_time := 0\<rparr>) (fsub T d))"
proof (cases "current_level g")
  case None
  then show ?thesis by (simp add: update_playing_no_level)
next
  case (Some lv)
  define gd where "gd = g\<lparr>total_pause_time := d\<rparr>"
  define g0 where "g0 = g\<lparr>total_pause_time := 0\<rparr>"
  have gd0: "gd = g0\<lparr>total_pause_time := d\<rparr>" by (simp add: gd_def g0_def)
  have e: "elapsed_time gd T = elapsed_time g0 (fsub T d)"
    and a: "adjusted_time gd T = adjusted_time g0 (fsub T d)"
    by (simp_all add: elapsed_time_def adjusted_time_def gd_def g0_def)
  have lvd: "current_level gd = Some lv" and lv0: "current_level g0 = Some lv"
    using Some by (simp_all add: gd_def g0_def)
  have f: "apples gd = apples g0" "game_start_time gd = game_start_time g0"
    "apple_spawn_interval gd = apple_spawn_interval g0"
    by (simp_all add: gd_def g0_def)
  show ?thesis unfolding gd_def[symmetric] g0_def[symmetric]
  proof (cases "fsub (float_of_int (lv_time lv)) (elapsed_time g0 (fsub T d)) \<le> 0")
    case True
    then have "fsub (float_of_int (lv_time lv)) (elapsed_time gd T) \<le> 0" by (simp add: e)
    from update_playing_over[OF lvd this, of c] update_playing_over[OF lv0 True, of c]
    show "update_playing c gd T =
      map_option (map_sum id (\<lambda>g'. g'\<lparr>total_pause_time := d\<rparr>)) (update_playing c g0 (fsub T d))"
      by (simp add: gd0)
  next
    case over: False
    then have overd: "\<not> fsub (float_of_int (lv_time lv)) (elapsed_time gd T) \<le> 0" by (simp add: e)
    show "update_playing c gd T =
      map_option (map_sum id (\<lambda>g'. g'\<lparr>total_pause_time := d\<rparr>)) (update_playing c g0 (fsub T d))"
    proof (cases "apple_spawn_interval g0 = 0")
      case True
      then have "apple_spawn_interval gd = 0" by (simp add: f)
      from update_playing_zero_interval[OF lvd overd this, of c]
        update_playing_zero_interval[OF lv0 over True, of c]
      show ?thesis by simp
    next
      case False
      then have nzd: "apple_spawn_interval gd \<noteq> 0" by (simp add: f)
      define A where "A = apples g0 @
             map (\<lambda>i. Apple (c i) (SPEEDS (lv_speed lv)) (fadd (game_start_time g0) (fmul (float_of_int (int i)) (apple_spawn_interval g0))))
               [length (apples g0)..<
                nat (min (py_int (fdiv (elapsed_time g0 (fsub T d)) (apple_spawn_interval g0)) + 1) (lv_apples lv))]"
      have d: "update_playing c gd T =
         (case update_all A (adjusted_time g0 (fsub T d)) of
            Inl e \<Rightarrow> Some (Inl e)
          | Inr as \<Rightarrow>
              Some (Inr (if fsub (float_of_int (lv_time lv)) (elapsed_time g0 (fsub T d)) \<le> 10
                    then gd\<lparr>apples := as, led_state := Led_warning\<rparr>
                    else gd\<lparr>apples := as\<rparr>)))"
        unfolding A_def using update_playing_running[OF lvd overd nzd, of c]
        by (simp only: e a f)
      have z: "update_playing c g0 (fsub T d) =
         (case update_all A (adjusted_time g0 (fsub T d)) of
            Inl e \<Rightarrow> Some (Inl e)
          | Inr as \<Rightarrow>
              Some (Inr (if fsub (float_of_int (lv_time lv)) (elapsed_time g0 (fsub T d)) \<le> 10
                    then g0\<lparr>apples := as, led_state := Led_warning\<rparr>
                    else g0\<lparr>apples := as\<rparr>)))"
        unfolding A_def by (rule update_playing_running[OF lv0 over False])
      show ?thesis
      proof (cases "update_all A (adjusted_time g0 (fsub T d))")
        case (Inl err)
        then show ?thesis unfolding d z by simp
      next
        case (Inr as)
        then show ?thesis unfolding d z by (simp add: gd0)
      qed
    qed
  qed
qed

lemma check_cut_action_input: "same_input_state (check_cut_action g ct act) g"
  by (simp add: check_cut_action_def same_input_state_def Let_def split: prod.splits)

lemma same_input_state_trans:
  "same_input_state a b \<Longrightarrow> same_input_state b c \<Longrightarrow> same_input_state a c"
  by (simp add: same_input_state_def)

lemma same_input_state_sym: "same_input_state a b \<Longrightarrow> same_input_state b a"
  by (simp add: same_input_state_def)

lemma encoder_detect_input:
  assumes "same_input_state g g'"
  shows "same_input_state (encoder_detect ea g T p) (encoder_detect ea g' T p)"
proof -
  from assms have e: "last_encoder_position g = last_encoder_position g'" "state g = state g'"
    by (simp_all add: same_input_state_def)
  show ?thesis
    using assms unfolding encoder_detect_def e Let_def
    by (simp add: same_input_state_def)
qed

lemma encoder_fire_input:
  assumes "same_input_state g g'"
  shows "snd (encoder_fire g T ct) = snd (encoder_fire g' T ct) \<and>
     same_input_state (fst (encoder_fire g T ct)) (fst (encoder_fire g' T ct))"
proof -
  have c: "same_input_state ((check_cut_action g ct a)\<lparr>encoder_action_pending := None\<rparr>)
             ((check_cut_action g' ct a)\<lparr>encoder_action_pending := None\<rparr>)" for a
    using check_cut_action_input[of g ct a] check_cut_action_input[of g' ct a] assms
    by (simp add: same_input_state_def)
  from assms have e: "encoder_action_pending g = encoder_action_pending g'" "state g = state g'"
    by (simp_all add: same_input_state_def)
  show ?thesis
  proof (cases "encoder_action_pending g'")
    case None
    with e assms show ?thesis by (simp add: encoder_fire_def)
  next
    case (Some p)
    obtain a ft where p: "p = (a, ft)" by (cases p)
    from Some e assms c[of a] show ?thesis
      by (simp add: encoder_fire_def p) (simp add: same_input_state_def)
  qed
qed

lemma accel_detect_input:
  "same_input_state g g' \<Longrightarrow>
   same_input_state (accel_detect g T r) (accel_detect g' T r)"
  by (simp add: accel_detect_def same_input_state_def Let_def split: option.splits prod.splits)

lemma accel_fire_input:
  assumes "same_input_state g g'"
  shows "snd (accel_fire g T ct) = snd (accel_fire g' T ct) \<and>
     same_input_state (fst (accel_fire g T ct)) (fst (accel_fire g' T ct))"
proof -
  have c: "same_input_state ((check_cut_action g ct a)\<lparr>accel_action_pending := None\<rparr>)
             ((check_cut_action g' ct a)\<lparr>accel_action_pending := None\<rparr>)" for a
    using check_cut_action_input[of g ct a] check_cut_action_input[of g' ct a] assms
    by (simp add: same_input_state_def)
  from assms have e: "accel_action_pending g = accel_action_pending g'" "state g = state g'"
    by (simp_all add: same_input_state_def)
  show ?thesis
  proof (cases "accel_action_pending g'")
    case None
    with e assms show ?thesis by (simp add: accel_fire_def)
  next
    case (Some p)
    obtain a ft where p: "p = (a, ft)" by (cases p)
    from Some e assms c[of a] show ?thesis
      by (simp add: accel_fire_def p) (simp add: same_input_state_def)
  qed
qed

lemma update_inputs_input:
  assumes "same_input_state g g'"
  shows "snd (update_inputs ea g T r) = snd (update_inputs ea g' T r) \<and>
     same_input_state (fst (update_inputs ea g T r)) (fst (update_inputs ea g' T r))"
proof -
  define g1 where "g1 = encoder_detect ea g T (encoder_position r)"
  define g1' where "g1' = encoder_detect ea g' T (encoder_position r)"
  have s1: "same_input_state g1 g1'"
    unfolding g1_def g1'_def using assms by (rule encoder_detect_input)
  obtain g2 f1 where ef: "encoder_fire g1 T (cut_time_encoder r) = (g2, f1)" by (cases "encoder_fire g1 T (cut_time_encoder r)")
  obtain g2' f1' where ef': "encoder_fire g1' T (cut_time_encoder r) = (g2', f1')"
    by (cases "encoder_fire g1' T (cut_time_encoder r)")
  from encoder_fire_input[OF s1, of T "cut_time_encoder r"] ef ef'
  have f1: "f1 = f1'" and s2: "same_input_state g2 g2'" by simp_all
  define h where "h = accel_detect g2 T (acceleration r)"
  define h' where "h' = accel_detect g2' T (acceleration r)"
  have s3: "same_input_state h h'" unfolding h_def h'_def using s2 by (rule accel_detect_input)
  obtain g3 f2 where af: "accel_fire h T (cut_time_accel r) = (g3, f2)" by (cases "accel_fire h T (cut_time_accel r)")
  obtain g3' f2' where af': "accel_fire h' T (cut_time_accel r) = (g3', f2')"
    by (cases "accel_fire h' T (cut_time_accel r)")
  from accel_fire_input[OF s3, of T "cut_time_accel r"] af af'
  have f2: "f2 = f2'" and s4: "same_input_state g3 g3'" by simp_all
  have u: "update_inputs ea g T r =
      (if power_switch r = Switch_value True then (g2, (case f1 of None \<Rightarrow> [] | Some a \<Rightarrow> [a]))
       else (g3, (case f1 of None \<Rightarrow> [] | Some a \<Rightarrow> [a]) @ (case f2 of None \<Rightarrow> [] | Some a \<Rightarrow> [a])))"
    using ef af by (simp add: update_inputs_def Let_def accel_input_def g1_def h_def)
  have u': "update_inputs ea g' T r =
      (if power_switch r = Switch_value True then (g2', (case f1' of None \<Rightarrow> [] | Some a \<Rightarrow> [a]))
       else (g3', (case f1' of None \<Rightarrow> [] | Some a \<Rightarrow> [a]) @ (case f2' of None \<Rightarrow> [] | Some a \<Rightarrow> [a])))"
    using ef' af' by (simp add: update_inputs_def Let_def accel_input_def g1'_def h'_def)
  show ?thesis unfolding u u' using f1 f2 s2 s4 by simp
qed

lemma update_inputs_pause:
  "snd (update_inputs ea (g\<lparr>total_pause_time := d\<rparr>) T r) = snd (update_inputs ea g T r) \<and>
   same_input_state (fst (update_inputs ea (g\<lparr>total_pause_time := d\<rparr>) T r)) (fst (update_inputs ea g T r))"
  by (rule update_inputs_input) (simp add: same_input_state_def)

lemma accel_detect_None: "accel_detect g T None = g"
  by (simp add: accel_detect_def)

lemma encoder_detect_unavailable: "encoder_detect False g T p = g"
  by (simp add: encoder_detect_def)

lemma encoder_fire_None: "encoder_action_pending g = None \<Longrightarrow> encoder_fire g T ct = (g, None)"
  by (simp add: encoder_fire_def)

lemma update_inputs_accel_only:
  assumes "encoder_action_pending g = None" "power_switch r = No_switch" "acceleration r = None"
  shows "snd (update_inputs False g T r) =
     (case snd (accel_fire g T (cut_time_accel r)) of None \<Rightarrow> [] | Some a \<Rightarrow> [a])"
  using assms
  by (simp add: update_inputs_def encoder_detect_unavailable encoder_fire_None accel_input_def
      accel_detect_None split: prod.splits)

text \<open>
  Claim C6, as amended. With the cumulative pause time \<open>d\<close>, the remaining time of
  \<open>update_playing\<close> and the countdown of \<open>draw_playing\<close> at the clock value \<open>T\<close> are
  those computed with pause time 0 at the float difference of \<open>T\<close> and \<open>d\<close>, and the
  whole tick of \<open>update_playing\<close> is the same: it ends, raises or returns alike, and the
  states returned differ in the pause time only. With a level set, the remaining time is
  the duration minus ((clock minus pause time) minus start time) in float subtraction, the
  countdown is that value or 0 if it is negative, and the tick ends the session when
  that value is not positive. The gesture sources of \<open>update_inputs\<close> are on the raw
  clock: the actions they give to the matching, and the input state they leave, do not
  depend on the pause time.
\<close>

theorem pause_accounting:
  "remaining_time (g\<lparr>total_pause_time := d\<rparr>) T =
     remaining_time (g\<lparr>total_pause_time := 0\<rparr>) (fsub T d) \<and>
   draw_playing_remaining (g\<lparr>total_pause_time := d\<rparr>) T =
     draw_playing_remaining (g\<lparr>total_pause_time := 0\<rparr>) (fsub T d) \<and>
   update_playing c (g\<lparr>total_pause_time := d\<rparr>) T =
     map_option (map_sum id (\<lambda>g'. g'\<lparr>total_pause_time := d\<rparr>))
       (update_playing c (g\<lparr>total_pause_time := 0\<rparr>) (fsub T d)) \<and>
   (current_level g = Some lv \<longrightarrow>
      remaining_time g T =
        Inr (fsub (float_of_int (lv_time lv)) (fsub (fsub T (total_pause_time g)) (game_start_time g))) \<and>
      draw_playing_remaining g T =
        Some (max 0 (fsub (float_of_int (lv_time lv)) (fsub (fsub T (total_pause_time g)) (game_start_time g)))) \<and>
      (fsub (float_of_int (lv_time lv)) (fsub (fsub T (total_pause_time g)) (game_start_time g)) \<le> 0 \<longrightarrow>
         update_playing c g T = Some (Inr (g\<lparr>state := GAME_OVER, led_state := Led_game_over\<rparr>)))) \<and>
   snd (update_inputs ea (g\<lparr>total_pause_time := d\<rparr>) T r) = snd (update_inputs ea g T r) \<and>
   same_input_state (fst (update_inputs ea (g\<lparr>total_pause_time := d\<rparr>) T r))
     (fst (update_inputs ea g T r))"
proof -
  have 4: "current_level g = Some lv \<longrightarrow>
      remaining_time g T =
        Inr (fsub (float_of_int (lv_time lv)) (fsub (fsub T (total_pause_time g)) (game_start_time g))) \<and>
      draw_playing_remaining g T =
        Some (max 0 (fsub (float_of_int (lv_time lv)) (fsub (fsub T (total_pause_time g)) (game_start_time g)))) \<and>
      (fsub (float_of_int (lv_time lv)) (fsub (fsub T (total_pause_time g)) (game_start_time g)) \<le> 0 \<longrightarrow>
         update_playing c g T = Some (Inr (g\<lparr>state := GAME_OVER, led_state := Led_game_over\<rparr>)))"
  proof (intro impI conjI)
    assume lv: "current_level g = Some lv"
    show "remaining_time g T =
        Inr (fsub (float_of_int (lv_time lv)) (fsub (fsub T (total_pause_time g)) (game_start_time g)))"
      by (simp add: remaining_time_def lv elapsed_time_def adjusted_time_def)
    show "draw_playing_remaining g T =
        Some (max 0 (fsub (float_of_int (lv_time lv)) (fsub (fsub T (total_pause_time g)) (game_start_time g))))"
      by (simp add: draw_playing_remaining_def lv Let_def)
    assume "fsub (float_of_int (lv_time lv)) (fsub (fsub T (total_pause_time g)) (game_start_time g)) \<le> 0"
    then have "fsub (float_of_int (lv_time lv)) (elapsed_time g T) \<le> 0"
      by (simp add: elapsed_time_def adjusted_time_def)
    with lv show "update_playing c g T = Some (Inr (g\<lparr>state := GAME_OVER, led_state := Led_game_over\<rparr>))"
      by (rule update_playing_over)
  qed
  show ?thesis
    by (intro conjI remaining_shift countdown_shift update_playing_shift 4
        update_inputs_pause[THEN conjunct1] update_inputs_pause[THEN conjunct2])
qed

theorem pause_accounting_witness:
  "current_level ((Game_attributes 0)\<lparr>state := PLAYING, current_level := Some (LEVELS ! 0),
       apple_spawn_interval := 6, total_pause_time := 5\<rparr>) = Some (LEVELS ! 0) \<and>
   remaining_time ((Game_attributes 0)\<lparr>state := PLAYING, current_level := Some (LEVELS ! 0),
       apple_spawn_interval := 6, total_pause_time := 5\<rparr>) 15 = Inr 50 \<and>
   draw_playing_remaining ((Game_attributes 0)\<lparr>state := PLAYING, current_level := Some (LEVELS ! 0),
       apple_spawn_interval := 6, total_pause_time := 5\<rparr>) 15 = Some 50 \<and>
   remaining_time ((Game_attributes 0)\<lparr>state := PLAYING, current_level := Some (LEVELS ! 0),
       apple_spawn_interval := 6, total_pause_time := 5\<rparr>) 70 = Inr (- 5) \<and>
   draw_playing_remaining ((Game_attributes 0)\<lparr>state := PLAYING, current_level := Some (LEVELS ! 0),
       apple_spawn_interval := 6, total_pause_time := 5\<rparr>) 70 = Some 0 \<and>
   update_playing (always Top) ((Game_attributes 0)\<lparr>state := PLAYING, current_level := Some (LEVELS ! 0),
       apple_spawn_interval := 6, total_pause_time := 5\<rparr>) 70 =
     Some (Inr ((Game_attributes 0)\<lparr>state := GAME_OVER, current_level := Some (LEVELS ! 0),
       apple_spawn_interval := 6, total_pause_time := 5, led_state := Led_game_over\<rparr>))"
proof -
  let ?g = "(Game_attributes 0)\<lparr>state := PLAYING, current_level := Some (LEVELS ! 0),
       apple_spawn_interval := 6, total_pause_time := 5\<rparr>"
  have lv: "current_level ?g = Some (LEVELS ! 0)" by simp
  have f: "total_pause_time ?g = 5" "game_start_time ?g = 0" "lv_time (LEVELS ! 0) = 60"
    by (simp_all add: Game_attributes_def LEVELS_0)
  have v: "fsub (float_of_int 60) (fsub (fsub 15 5) 0) = 50" "fsub (float_of_int 60) (fsub (fsub 70 5) 0) = - 5"
    by (simp_all add: float_ops)
  let ?r = "\<lparr>encoder_position = None, power_switch = No_switch, acceleration = None,
            cut_time_encoder = 0, cut_time_accel = 0\<rparr>"
  note p15 = pause_accounting[where g = ?g and d = 5 and T = 15 and c = "always Top" and lv = "LEVELS ! 0"
      and ea = False and r = ?r, THEN conjunct2, THEN conjunct2, THEN conjunct2, THEN conjunct1, THEN mp, OF lv]
  note p70 = pause_accounting[where g = ?g and d = 5 and T = 70 and c = "always Top" and lv = "LEVELS ! 0"
      and ea = False and r = ?r, THEN conjunct2, THEN conjunct2, THEN conjunct2, THEN conjunct1, THEN mp, OF lv]
  from p15 have a: "remaining_time ?g 15 = Inr 50" "draw_playing_remaining ?g 15 = Some 50"
    unfolding f v by simp_all
  from p70 have b: "remaining_time ?g 70 = Inr (- 5)" "draw_playing_remaining ?g 70 = Some 0"
    "update_playing (always Top) ?g 70 = Some (Inr (?g\<lparr>state := GAME_OVER, led_state := Led_game_over\<rparr>))"
    unfolding f v by simp_all
  from lv a b show ?thesis by simp
qed

text \<open>
  The claim C6 as stated fails. Not all timing of the Playing state is on the
  pause-adjusted clock: the response delay of a gesture is tested against the raw clock.
  A Playing session with a forward action pending for the clock value 2 and a cumulative
  pause time of 1 second gives the action to the matching at the clock value 2, while
  the session without the pause does not at the clock value 2 - 1.
\<close>

theorem response_delay_raw_clock_counterexample:
  "snd (update_inputs False
          ((Game_attributes 0)\<lparr>state := PLAYING, accel_action_pending := Some (Forward, 2),
                                total_pause_time := 1\<rparr>) 2
          \<lparr>encoder_position = None, power_switch = No_switch, acceleration = None,
            cut_time_encoder = 2, cut_time_accel = 2\<rparr>) = [Forward] \<and>
   snd (update_inputs False
          ((Game_attributes 0)\<lparr>state := PLAYING, accel_action_pending := Some (Forward, 2),
                                total_pause_time := 0\<rparr>) (fsub 2 1)
          \<lparr>encoder_position = None, power_switch = No_switch, acceleration = None,
            cut_time_encoder = fsub 2 1, cut_time_accel = fsub 2 1\<rparr>) = []"
  by (simp add: update_inputs_accel_only accel_fire_def Game_attributes_def float_ops)

subsection \<open>Accelerometer gesture source\<close>

lemma fadd_RESPONSE_DELAY_gt:
  assumes "0 \<le> now" "now < 2 ^ 50"
  shows "now < fadd now RESPONSE_DELAY"
proof -
  define v where "v = now + RESPONSE_DELAY"
  have rd: "1 / 8 < RESPONSE_DELAY" "RESPONSE_DELAY < 1" by (simp_all add: RESPONSE_DELAY_eq)
  have v0: "v \<noteq> 0" and vlt: "\<bar>v\<bar> < 2 powi (50 + 1)"
    using assms rd by (simp_all add: v_def)
  from float_exponent_le[OF vlt v0] have "float_exponent v \<le> - 2" by simp
  then have "(2::real) powi float_exponent v \<le> 2 powi (- 2)"
    by (intro power_int_increasing) simp_all
  also have "\<dots> = 1 / 4" by (simp add: power_int_minus)
  finally have "(2::real) powi float_exponent v / 2 \<le> 1 / 8" by simp
  with float_round_error[of v] have "\<bar>float_round v - v\<bar> \<le> 1 / 8" by linarith
  then have "v - 1 / 8 \<le> float_round v" by linarith
  with rd(1) show ?thesis by (simp add: fadd_def v_def)
qed

lemma accel_detect_pending:
  "accel_action_pending (accel_detect g now r) =
     (if accel_edge g now r Forward then Some (Forward, fadd now RESPONSE_DELAY)
      else if accel_edge g now r Backward then Some (Backward, fadd now RESPONSE_DELAY)
      else accel_action_pending g)"
  by (simp add: accel_detect_def accel_edge_def Let_def split: option.splits prod.splits)

lemma accel_detect_state: "state (accel_detect g now r) = state g"
  by (simp add: accel_detect_def Let_def split: option.splits prod.splits)

lemma accel_fire_fired:
  "snd (accel_fire g now ct) = Some a \<longleftrightarrow>
     (\<exists>ft. accel_action_pending g = Some (a, ft) \<and> ft \<le> now \<and> state g = PLAYING)"
  by (auto simp: accel_fire_def split: option.splits prod.splits)

lemma accel_fire_pending:
  "accel_action_pending (fst (accel_fire g now ct)) = Some p \<Longrightarrow> accel_action_pending g = Some p"
  by (auto simp: accel_fire_def split: option.splits prod.splits if_splits)

lemma accel_edge_sample:
  "accel_edge g t r b \<Longrightarrow>
   \<exists>ax ay az. r = Some (ax, ay, az) \<and> (b = Forward \<and> ay > 2 \<or> b = Backward \<and> ay < - 2)"
  by (auto simp: accel_edge_def split: option.splits)

lemma accel_input_fired:
  assumes "snd (accel_input g now r ct) = Some a"
  shows "state g = PLAYING \<and>
     ((\<exists>ft. accel_action_pending g = Some (a, ft) \<and> ft \<le> now) \<and>
        \<not> accel_edge g now r Forward \<and> \<not> accel_edge g now r Backward \<or>
      accel_edge g now r a \<and> fadd now RESPONSE_DELAY \<le> now)"
proof -
  from assms obtain ft where
    p: "accel_action_pending (accel_detect g now r) = Some (a, ft)" and le: "ft \<le> now"
    and st: "state g = PLAYING"
    by (auto simp: accel_input_def accel_fire_fired accel_detect_state)
  show ?thesis
  proof (cases "accel_edge g now r Forward")
    case True
    with p have "a = Forward" "ft = fadd now RESPONSE_DELAY" by (simp_all add: accel_detect_pending)
    with True le st show ?thesis by simp
  next
    case nf: False
    show ?thesis
    proof (cases "accel_edge g now r Backward")
      case True
      with p nf have "a = Backward" "ft = fadd now RESPONSE_DELAY" by (simp_all add: accel_detect_pending)
      with True le st show ?thesis by simp
    next
      case False
      with p nf have "accel_action_pending g = Some (a, ft)" by (simp add: accel_detect_pending)
      with le nf False st show ?thesis by blast
    qed
  qed
qed

lemma accel_input_fired_in_range:
  assumes "snd (accel_input g now r ct) = Some a" "0 \<le> now" "now < 2 ^ 50"
  shows "(\<exists>ft. accel_action_pending g = Some (a, ft) \<and> ft \<le> now) \<and>
     \<not> accel_edge g now r Forward \<and> \<not> accel_edge g now r Backward"
  using accel_input_fired[OF assms(1)] fadd_RESPONSE_DELAY_gt[OF assms(2,3)] by auto

lemma accel_input_pending:
  assumes "accel_action_pending (fst (accel_input g now r ct)) = Some (a, ft)"
  shows "accel_action_pending g = Some (a, ft) \<or> (ft = fadd now RESPONSE_DELAY \<and> accel_edge g now r a)"
proof -
  from assms have "accel_action_pending (accel_detect g now r) = Some (a, ft)"
    unfolding accel_input_def by (rule accel_fire_pending)
  then show ?thesis
    by (auto simp: accel_detect_pending split: if_splits)
qed

lemma accel_ticks_fired:
  assumes "(t, a) \<in> set (snd (accel_ticks g ticks))"
  shows "(\<exists>ft. accel_action_pending g = Some (a, ft) \<and> ft \<le> t) \<or>
     (\<exists>(td, r, ct) \<in> set ticks. fadd td RESPONSE_DELAY \<le> t \<and>
        (\<exists>ax ay az. r = Some (ax, ay, az) \<and> (a = Forward \<and> ay > 2 \<or> a = Backward \<and> ay < - 2)))"
  using assms
proof (induction ticks arbitrary: g)
  case Nil
  then show ?case by simp
next
  case (Cons tick ticks)
  obtain t0 r ct where tick: "tick = (t0, r, ct)" by (cases tick)
  define g1 where "g1 = fst (accel_input g t0 r ct)"
  define fired where "fired = snd (accel_input g t0 r ct)"
  have ai: "accel_input g t0 r ct = (g1, fired)" by (simp add: g1_def fired_def)
  have lg: "snd (accel_ticks g (tick # ticks)) =
      (case fired of None \<Rightarrow> [] | Some b \<Rightarrow> [(t0, b)]) @ snd (accel_ticks g1 ticks)"
    by (simp add: tick ai split: prod.splits)
  from Cons.prems lg have "(t, a) \<in> set (case fired of None \<Rightarrow> [] | Some b \<Rightarrow> [(t0, b)]) \<or>
      (t, a) \<in> set (snd (accel_ticks g1 ticks))" by simp
  then show ?case
  proof
    assume "(t, a) \<in> set (case fired of None \<Rightarrow> [] | Some b \<Rightarrow> [(t0, b)])"
    then have f: "fired = Some a" "t = t0" by (auto split: option.splits)
    then have "snd (accel_input g t0 r ct) = Some a" by (simp add: fired_def)
    from accel_input_fired[OF this]
    have "(\<exists>ft. accel_action_pending g = Some (a, ft) \<and> ft \<le> t0) \<or>
      accel_edge g t0 r a \<and> fadd t0 RESPONSE_DELAY \<le> t0" by blast
    then show ?thesis
    proof
      assume "\<exists>ft. accel_action_pending g = Some (a, ft) \<and> ft \<le> t0"
      with f show ?thesis by blast
    next
      assume e: "accel_edge g t0 r a \<and> fadd t0 RESPONSE_DELAY \<le> t0"
      with accel_edge_sample[of g t0 r a] f have "fadd t0 RESPONSE_DELAY \<le> t \<and>
          (\<exists>ax ay az. r = Some (ax, ay, az) \<and> (a = Forward \<and> ay > 2 \<or> a = Backward \<and> ay < - 2))"
        by simp
      then show ?thesis by (auto simp: tick)
    qed
  next
    assume "(t, a) \<in> set (snd (accel_ticks g1 ticks))"
    from Cons.IH[OF this] show ?thesis
    proof
      assume "\<exists>ft. accel_action_pending g1 = Some (a, ft) \<and> ft \<le> t"
      then obtain ft where p: "accel_action_pending g1 = Some (a, ft)" and le: "ft \<le> t" by blast
      from accel_input_pending[of g t0 r ct a ft] p
      have "accel_action_pending g = Some (a, ft) \<or> (ft = fadd t0 RESPONSE_DELAY \<and> accel_edge g t0 r a)"
        by (simp add: g1_def)
      then show ?thesis
      proof
        assume "accel_action_pending g = Some (a, ft)"
        with le show ?thesis by blast
      next
        assume e: "ft = fadd t0 RESPONSE_DELAY \<and> accel_edge g t0 r a"
        with accel_edge_sample[of g t0 r a] le have "fadd t0 RESPONSE_DELAY \<le> t \<and>
          (\<exists>ax ay az. r = Some (ax, ay, az) \<and> (a = Forward \<and> ay > 2 \<or> a = Backward \<and> ay < - 2))"
          by simp
        then show ?thesis by (auto simp: tick)
      qed
    next
      assume "\<exists>(td, r, ct) \<in> set ticks. fadd td RESPONSE_DELAY \<le> t \<and>
        (\<exists>ax ay az. r = Some (ax, ay, az) \<and> (a = Forward \<and> ay > 2 \<or> a = Backward \<and> ay < - 2))"
      then show ?thesis by auto
    qed
  qed
qed

lemma accel_ticks_log:
  "snd (accel_ticks g ((t, r, ct) # ticks)) =
     (case snd (accel_input g t r ct) of None \<Rightarrow> [] | Some a \<Rightarrow> [(t, a)]) @
     snd (accel_ticks (fst (accel_input g t r ct)) ticks)"
  by (simp split: prod.splits)

lemma fadd_1_RESPONSE_DELAY: "fadd 1 RESPONSE_DELAY = 5404319552844595 / 4503599627370496"
proof -
  have "float_round (1 + 3602879701896397 / 18014398509481984) =
        real_of_int 5404319552844595 / 2 powi (52 - 0)"
    by (rule float_round_eval) (simp_all add: power_int_minus round_half_even_def)
  also have "\<dots> = 5404319552844595 / 4503599627370496" by simp
  finally show ?thesis by (simp add: fadd_def RESPONSE_DELAY_eq)
qed

lemma sample_due:
  "float_round (1 / 10) < fsub (5404319552844595 / 4503599627370496) 1"
proof -
  have "(1 / 8 :: real) \<le> 5404319552844595 / 4503599627370496 - 1" by simp
  then have "float_round (1 / 8) \<le> float_round (5404319552844595 / 4503599627370496 - 1)"
    by (rule float_round_mono)
  moreover have "float_round (1 / 8) = 1 / 8"
    using float_exact[of 1 "- 3"] by (simp add: power_int_minus)
  moreover have "float_round (1 / 10) < 1 / 8" by (simp add: fr_01)
  ultimately show ?thesis by (simp add: fsub_def)
qed

lemma accel_input_Game:
  "accel_input ((Game_attributes 0)\<lparr>state := PLAYING, last_accel_y := 1\<rparr>) 1 (Some (0, 5 / 2, 0)) 1 =
     ((Game_attributes 0)\<lparr>state := PLAYING,
        accel_action_pending := Some (Forward, 5404319552844595 / 4503599627370496),
        last_accel_y := 5 / 2, last_accel_action_time := 1\<rparr>, None)"
proof -
  have s: "float_round (1 / 10) < fsub 1 0" using fr_01 by (simp add: fsub_def)
  have d: "accel_detect ((Game_attributes 0)\<lparr>state := PLAYING, last_accel_y := 1\<rparr>) 1 (Some (0, 5 / 2, 0)) =
     (Game_attributes 0)\<lparr>state := PLAYING,
        accel_action_pending := Some (Forward, 5404319552844595 / 4503599627370496),
        last_accel_y := 5 / 2, last_accel_action_time := 1\<rparr>"
    using s by (simp add: accel_detect_def Game_attributes_def Let_def fadd_1_RESPONSE_DELAY)
  have "(1::real) < 5404319552844595 / 4503599627370496" by simp
  then show ?thesis unfolding accel_input_def d by (simp add: accel_fire_def)
qed

lemma accel_input_Game2:
  "snd (accel_input ((Game_attributes 0)\<lparr>state := PLAYING,
        accel_action_pending := Some (Forward, 5404319552844595 / 4503599627370496),
        last_accel_y := 5 / 2, last_accel_action_time := 1\<rparr>) (5404319552844595 / 4503599627370496)
        (Some (0, 5 / 2, 0)) (5404319552844595 / 4503599627370496)) = Some Forward"
proof -
  have d: "accel_detect ((Game_attributes 0)\<lparr>state := PLAYING,
        accel_action_pending := Some (Forward, 5404319552844595 / 4503599627370496),
        last_accel_y := 5 / 2, last_accel_action_time := 1\<rparr>) (5404319552844595 / 4503599627370496)
        (Some (0, 5 / 2, 0)) =
     (Game_attributes 0)\<lparr>state := PLAYING,
        accel_action_pending := Some (Forward, 5404319552844595 / 4503599627370496),
        last_accel_y := 5 / 2, last_accel_action_time := 5404319552844595 / 4503599627370496\<rparr>"
    using sample_due by (simp add: accel_detect_def Game_attributes_def Let_def)
  show ?thesis unfolding accel_input_def d by (simp add: accel_fire_def)
qed

lemma accel_ticks_Game:
  "snd (accel_ticks ((Game_attributes 0)\<lparr>state := PLAYING, last_accel_y := 1\<rparr>)
          [(1, Some (0, 5 / 2, 0), 1),
           (5404319552844595 / 4503599627370496, Some (0, 5 / 2, 0), 5404319552844595 / 4503599627370496)]) =
     [(5404319552844595 / 4503599627370496, Forward)]"
  by (simp add: accel_ticks_log accel_input_Game accel_input_Game2 del: accel_ticks.simps(2))

lemma fired_after_detection:
  "fadd td RESPONSE_DELAY \<le> t \<Longrightarrow> 0 \<le> td \<Longrightarrow> td < 2 ^ 50 \<Longrightarrow> td < t"
  using fadd_RESPONSE_DELAY_gt[of td] by simp

text \<open>
  Claim C7, as amended. The accelerometer sample changes the pending action only on an
  edge; a forward edge at the tick \<open>now\<close> makes the pending action forward with the fire
  time the float sum of \<open>now\<close> and the response delay (the float 0.2), a backward edge
  likewise; a sample past a threshold whose predecessor was past it too creates nothing.
  At a clock value in \<open>[0, 2^50)\<close> the float sum is above \<open>now\<close>, so an action is given
  to the matching at such a tick only if it was pending before the tick with a fire time
  not after the tick, and then the tick detected no edge. Over any sequence of ticks
  that starts with nothing pending, every action given to the matching at a tick \<open>t\<close>
  was detected at a tick \<open>td\<close> of the sequence whose float sum with the response delay
  is at most \<open>t\<close>, from a sample past the threshold of that action, and \<open>td < t\<close> when
  \<open>td\<close> is in \<open>[0, 2^50)\<close>.
\<close>

theorem accel_gesture_edge_and_delay:
  "(accel_action_pending (accel_detect g now r) \<noteq> accel_action_pending g \<longrightarrow>
      accel_edge g now r Forward \<or> accel_edge g now r Backward) \<and>
   (accel_edge g now r Forward \<longrightarrow>
      accel_action_pending (accel_detect g now r) = Some (Forward, fadd now RESPONSE_DELAY)) \<and>
   (accel_edge g now r Backward \<longrightarrow>
      accel_action_pending (accel_detect g now r) = Some (Backward, fadd now RESPONSE_DELAY)) \<and>
   (r = Some (ax, ay, az) \<and> (ay > 2 \<and> last_accel_y g > 2 \<or> ay < - 2 \<and> last_accel_y g < - 2) \<longrightarrow>
      accel_action_pending (accel_detect g now r) = accel_action_pending g) \<and>
   (0 \<le> now \<and> now < 2 ^ 50 \<longrightarrow> now < fadd now RESPONSE_DELAY) \<and>
   (snd (accel_input g now r ct) = Some a \<and> 0 \<le> now \<and> now < 2 ^ 50 \<longrightarrow>
      (\<exists>ft. accel_action_pending g = Some (a, ft) \<and> ft \<le> now) \<and>
      \<not> accel_edge g now r Forward \<and> \<not> accel_edge g now r Backward) \<and>
   (accel_action_pending g0 = None \<and> (t, b) \<in> set (snd (accel_ticks g0 ticks)) \<longrightarrow>
      (\<exists>(td, rd, cd) \<in> set ticks. fadd td RESPONSE_DELAY \<le> t \<and>
         (0 \<le> td \<and> td < 2 ^ 50 \<longrightarrow> td < t) \<and>
         (\<exists>bx by bz. rd = Some (bx, by, bz) \<and> (b = Forward \<and> by > 2 \<or> b = Backward \<and> by < - 2))))"
proof -
  have 1: "accel_action_pending (accel_detect g now r) \<noteq> accel_action_pending g \<longrightarrow>
      accel_edge g now r Forward \<or> accel_edge g now r Backward"
    by (simp add: accel_detect_pending)
  have 2: "accel_edge g now r Forward \<longrightarrow>
      accel_action_pending (accel_detect g now r) = Some (Forward, fadd now RESPONSE_DELAY)"
    by (simp add: accel_detect_pending)
  have 3: "accel_edge g now r Backward \<longrightarrow>
      accel_action_pending (accel_detect g now r) = Some (Backward, fadd now RESPONSE_DELAY)"
    by (auto simp: accel_detect_pending accel_edge_def split: option.splits)
  have 4: "r = Some (ax, ay, az) \<and> (ay > 2 \<and> last_accel_y g > 2 \<or> ay < - 2 \<and> last_accel_y g < - 2) \<longrightarrow>
      accel_action_pending (accel_detect g now r) = accel_action_pending g"
    by (auto simp: accel_detect_pending accel_edge_def)
  have 5: "0 \<le> now \<and> now < 2 ^ 50 \<longrightarrow> now < fadd now RESPONSE_DELAY"
    using fadd_RESPONSE_DELAY_gt[of now] by simp
  have 6: "snd (accel_input g now r ct) = Some a \<and> 0 \<le> now \<and> now < 2 ^ 50 \<longrightarrow>
      (\<exists>ft. accel_action_pending g = Some (a, ft) \<and> ft \<le> now) \<and>
      \<not> accel_edge g now r Forward \<and> \<not> accel_edge g now r Backward"
    using accel_input_fired_in_range[of g now r ct a] by blast
  have 7: "accel_action_pending g0 = None \<and> (t, b) \<in> set (snd (accel_ticks g0 ticks)) \<longrightarrow>
      (\<exists>(td, rd, cd) \<in> set ticks. fadd td RESPONSE_DELAY \<le> t \<and>
         (0 \<le> td \<and> td < 2 ^ 50 \<longrightarrow> td < t) \<and>
         (\<exists>bx by bz. rd = Some (bx, by, bz) \<and> (b = Forward \<and> by > 2 \<or> b = Backward \<and> by < - 2)))"
  proof
    assume h: "accel_action_pending g0 = None \<and> (t, b) \<in> set (snd (accel_ticks g0 ticks))"
    then have "(t, b) \<in> set (snd (accel_ticks g0 ticks))" ..
    from accel_ticks_fired[OF this] h
    have "\<exists>(td, rd, cd) \<in> set ticks. fadd td RESPONSE_DELAY \<le> t \<and>
         (\<exists>bx by bz. rd = Some (bx, by, bz) \<and> (b = Forward \<and> by > 2 \<or> b = Backward \<and> by < - 2))"
      by simp
    then obtain td rd cd where m: "(td, rd, cd) \<in> set ticks" and le: "fadd td RESPONSE_DELAY \<le> t"
      and s: "\<exists>bx by bz. rd = Some (bx, by, bz) \<and> (b = Forward \<and> by > 2 \<or> b = Backward \<and> by < - 2)"
      by blast
    from le have "0 \<le> td \<and> td < 2 ^ 50 \<longrightarrow> td < t" using fired_after_detection[of td t] by blast
    with m le s
    show "\<exists>(td, rd, cd) \<in> set ticks. fadd td RESPONSE_DELAY \<le> t \<and>
         (0 \<le> td \<and> td < 2 ^ 50 \<longrightarrow> td < t) \<and>
         (\<exists>bx by bz. rd = Some (bx, by, bz) \<and> (b = Forward \<and> by > 2 \<or> b = Backward \<and> by < - 2))"
      by blast
  qed
  from 1 2 3 4 5 6 7 show ?thesis by (intro conjI)
qed

theorem accel_gesture_edge_and_delay_witness:
  "accel_edge ((Game_attributes 0)\<lparr>state := PLAYING, last_accel_y := 1\<rparr>) 1 (Some (0, 5 / 2, 0)) Forward \<and>
   accel_action_pending (accel_detect ((Game_attributes 0)\<lparr>state := PLAYING, last_accel_y := 1\<rparr>) 1
       (Some (0, 5 / 2, 0))) = Some (Forward, fadd 1 RESPONSE_DELAY) \<and>
   1 < fadd 1 RESPONSE_DELAY \<and>
   snd (accel_input ((Game_attributes 0)\<lparr>state := PLAYING, last_accel_y := 1\<rparr>) 1 (Some (0, 5 / 2, 0)) 1) = None \<and>
   snd (accel_ticks ((Game_attributes 0)\<lparr>state := PLAYING, last_accel_y := 1\<rparr>)
          [(1, Some (0, 5 / 2, 0), 1),
           (5404319552844595 / 4503599627370496, Some (0, 5 / 2, 0), 5404319552844595 / 4503599627370496)]) =
     [(5404319552844595 / 4503599627370496, Forward)] \<and>
   (\<exists>(td, rd, cd) \<in> set [(1, Some (0, 5 / 2, 0), 1),
           (5404319552844595 / 4503599627370496, Some (0, 5 / 2, 0), 5404319552844595 / 4503599627370496 :: real)].
       fadd td RESPONSE_DELAY \<le> 5404319552844595 / 4503599627370496 \<and>
       (0 \<le> td \<and> td < 2 ^ 50 \<longrightarrow> td < 5404319552844595 / 4503599627370496) \<and>
       (\<exists>bx by bz. rd = Some (bx, by, bz) \<and> (Forward = Forward \<and> by > (2 :: real) \<or> Forward = Backward \<and> by < - 2)))"
proof -
  let ?g = "(Game_attributes 0)\<lparr>state := PLAYING, last_accel_y := 1\<rparr>"
  let ?T = "5404319552844595 / 4503599627370496 :: real"
  let ?ticks = "[(1, Some (0, 5 / 2, 0), 1), (?T, Some (0, 5 / 2, 0), ?T)]"
  have e: "accel_edge ?g 1 (Some (0, 5 / 2, 0)) Forward"
    using fr_01 by (simp add: accel_edge_def Game_attributes_def fsub_def)
  have n: "snd (accel_input ?g 1 (Some (0, 5 / 2, 0)) 1) = None"
    by (simp add: accel_input_Game)
  have l: "snd (accel_ticks ?g ?ticks) = [(?T, Forward)]"
    by (rule accel_ticks_Game)
  have p: "accel_action_pending ?g = None" by (simp add: Game_attributes_def)
  note c = accel_gesture_edge_and_delay[where g = ?g and now = 1 and r = "Some (0, 5 / 2, 0)"
      and ax = 0 and ay = "5 / 2" and az = 0 and ct = 1 and a = Forward and ?g0.0 = ?g and t = ?T
      and b = Forward and ticks = ?ticks]
  from c e have d: "accel_action_pending (accel_detect ?g 1 (Some (0, 5 / 2, 0))) = Some (Forward, fadd 1 RESPONSE_DELAY)"
    by blast
  from c have g: "1 < fadd 1 RESPONSE_DELAY" by simp
  from c p l have
    "\<exists>(td, rd, cd) \<in> set ?ticks. fadd td RESPONSE_DELAY \<le> ?T \<and>
       (0 \<le> td \<and> td < 2 ^ 50 \<longrightarrow> td < ?T) \<and>
       (\<exists>bx by bz. rd = Some (bx, by, bz) \<and> (Forward = Forward \<and> by > (2 :: real) \<or> Forward = Backward \<and> by < - 2))"
    by simp
  with e d g n l show ?thesis by (intro conjI)
qed

text \<open>
  The claim C7 as stated fails. The fire time is the float sum of the detection time
  and the float 0.2, which can be below the exact sum: with nothing pending, the last
  sample at 1.0 and a sample of 2.5 at the clock value 1.0, the forward action is given
  to the matching at the tick whose clock value is the float 1.2, and that value is
  below 1.0 + 0.2 (and below 1.0 plus the stored response delay).
\<close>

theorem accel_fire_time_float_sum_counterexample:
  "snd (accel_ticks ((Game_attributes 0)\<lparr>state := PLAYING, last_accel_y := 1\<rparr>)
          [(1, Some (0, 5 / 2, 0), 1),
           (5404319552844595 / 4503599627370496, Some (0, 5 / 2, 0), 5404319552844595 / 4503599627370496)]) =
     [(5404319552844595 / 4503599627370496, Forward)] \<and>
   (5404319552844595 / 4503599627370496 :: real) < 1 + 2 / 10 \<and>
   5404319552844595 / 4503599627370496 < 1 + RESPONSE_DELAY"
proof (intro conjI)
  show "snd (accel_ticks ((Game_attributes 0)\<lparr>state := PLAYING, last_accel_y := 1\<rparr>)
          [(1, Some (0, 5 / 2, 0), 1),
           (5404319552844595 / 4503599627370496, Some (0, 5 / 2, 0), 5404319552844595 / 4503599627370496)]) =
     [(5404319552844595 / 4503599627370496, Forward)]"
    by (rule accel_ticks_Game)
  show "(5404319552844595 / 4503599627370496 :: real) < 1 + 2 / 10" by simp
  show "5404319552844595 / 4503599627370496 < 1 + RESPONSE_DELAY" by (simp add: RESPONSE_DELAY_eq)
qed

text \<open>
  The float sum can also be above the decimal sum. After a detection at the float 0.4 the
  fire time is 0.6000000000000001; the tick at the float 0.6 does not give the action to
  the matching, the tick at 0.625 does.
\<close>

lemma sample_due_from:
  assumes "1 / 8 \<le> v"
  shows "float_round (1 / 10) < float_round v"
proof -
  from assms have "float_round (1 / 8) \<le> float_round v" by (rule float_round_mono)
  moreover have "float_round (1 / 8) = 1 / 8"
    using float_exact[of 1 "- 3"] by (simp add: power_int_minus)
  moreover have "float_round (1 / 10) < 1 / 8" by (simp add: fr_01)
  ultimately show ?thesis by simp
qed

lemma sample_not_due:
  assumes "v \<le> 1 / 16"
  shows "\<not> float_round (1 / 10) < float_round v"
proof -
  from assms have "float_round v \<le> float_round (1 / 16)" by (rule float_round_mono)
  moreover have "float_round (1 / 16) = 1 / 16"
    using float_exact[of 1 "- 4"] by (simp add: power_int_minus)
  moreover have "1 / 16 < float_round (1 / 10)" by (simp add: fr_01)
  ultimately show ?thesis by simp
qed

lemma fadd_04_RESPONSE_DELAY:
  "fadd (3602879701896397 / 9007199254740992) RESPONSE_DELAY = 1351079888211149 / 2251799813685248"
proof -
  have "float_round (3602879701896397 / 9007199254740992 + 3602879701896397 / 18014398509481984) =
        real_of_int 5404319552844596 / 2 powi (52 - (- 1))"
    by (rule float_round_eval) (simp_all add: power_int_minus round_half_even_def)
  also have "\<dots> = 1351079888211149 / 2251799813685248" by simp
  finally show ?thesis by (simp add: fadd_def RESPONSE_DELAY_eq)
qed

lemma accel_ticks_sum_rounded_up:
  "snd (accel_ticks ((Game_attributes 0)\<lparr>state := PLAYING, last_accel_y := 1\<rparr>)
          [(3602879701896397 / 9007199254740992, Some (0, 5 / 2, 0), 3602879701896397 / 9007199254740992),
           (5404319552844595 / 9007199254740992, Some (0, 5 / 2, 0), 5404319552844595 / 9007199254740992),
           (5 / 8, Some (0, 5 / 2, 0), 5 / 8)]) = [(5 / 8, Forward)]"
proof -
  let ?g0 = "(Game_attributes 0)\<lparr>state := PLAYING, last_accel_y := 1\<rparr>"
  let ?t4 = "3602879701896397 / 9007199254740992 :: real"
  let ?t6 = "5404319552844595 / 9007199254740992 :: real"
  let ?f = "1351079888211149 / 2251799813685248 :: real"
  let ?g1 = "(Game_attributes 0)\<lparr>state := PLAYING, accel_action_pending := Some (Forward, ?f),
        last_accel_y := 5 / 2, last_accel_action_time := ?t4\<rparr>"
  let ?g2 = "(Game_attributes 0)\<lparr>state := PLAYING, accel_action_pending := Some (Forward, ?f),
        last_accel_y := 5 / 2, last_accel_action_time := ?t6\<rparr>"
  have s1: "float_round (1 / 10) < fsub ?t4 0" unfolding fsub_def by (rule sample_due_from) simp
  have s2: "float_round (1 / 10) < fsub ?t6 ?t4" unfolding fsub_def by (rule sample_due_from) simp
  have s3: "\<not> float_round (1 / 10) < fsub (5 / 8) ?t6" unfolding fsub_def by (rule sample_not_due) simp
  have d1: "accel_detect ?g0 ?t4 (Some (0, 5 / 2, 0)) = ?g1"
    using s1 by (simp add: accel_detect_def Game_attributes_def Let_def fadd_04_RESPONSE_DELAY)
  have a1: "accel_input ?g0 ?t4 (Some (0, 5 / 2, 0)) ?t4 = (?g1, None)"
    unfolding accel_input_def d1 by (simp add: accel_fire_def)
  have d2: "accel_detect ?g1 ?t6 (Some (0, 5 / 2, 0)) = ?g2"
    using s2 by (simp add: accel_detect_def Game_attributes_def Let_def)
  have a2: "accel_input ?g1 ?t6 (Some (0, 5 / 2, 0)) ?t6 = (?g2, None)"
    unfolding accel_input_def d2 by (simp add: accel_fire_def)
  have d3: "accel_detect ?g2 (5 / 8) (Some (0, 5 / 2, 0)) = ?g2"
    using s3 by (simp add: accel_detect_def Game_attributes_def)
  have a3: "snd (accel_input ?g2 (5 / 8) (Some (0, 5 / 2, 0)) (5 / 8)) = Some Forward"
    unfolding accel_input_def d3 by (simp add: accel_fire_def)
  show ?thesis
    by (simp add: accel_ticks_log a1 a2 a3 del: accel_ticks.simps(2))
qed

subsection \<open>A late first update in a running level\<close>

text \<open>
  The scheduler gives an apple such a first update: in the last level, when the first
  tick comes 0.25 s after the level start and the edge drawn is the bottom, the apple
  list after the tick holds one apple, inside the rectangle and not marked as entered.
\<close>

lemma LEVELS_9: "LEVELS ! 9 = \<lparr>lv_name = ''H3:HD 35A 20S'', lv_speed = Ultra, lv_apples = 35, lv_time = 20, lv_difficulty = Hard\<rparr>"
  by (simp add: LEVELS_def)

lemma late_first_update_reachable:
  "\<exists>G g'. start_level (Game_attributes 0) 9 0 = Inr (True, G) \<and>
     play_ticks (always Bottom) G [1 / 4] = Some (Inr g') \<and>
     apples g' = [(Apple Bottom 90 0)\<lparr>pos_x := 63, pos_y := 81 / 2\<rparr>]"
proof -
  define G where "G = (Game_attributes 0)\<lparr>current_level_index := 9, current_level := Some (LEVELS ! nat 9),
       apples := [], sliced_count := 0, game_start_time := 0, last_apple_spawn_time := 0,
       total_pause_time := 0,
       apple_spawn_interval :=
         (if lv_apples (LEVELS ! nat 9) > 0
          then int_true_divide (lv_time (LEVELS ! nat 9)) (lv_apples (LEVELS ! nat 9))
          else 999),
       state := PLAYING, led_state := Led_playing\<rparr>"
  have st: "start_level (Game_attributes 0) 9 0 = Inr (True, G)"
    unfolding G_def by (rule start_level_ok) (simp_all add: LEVELS_def)
  have f: "current_level G = Some (LEVELS ! 9)" "apple_spawn_interval G = cadence (LEVELS ! 9)"
    "apples G = []" "game_start_time G = 0" "total_pause_time G = 0"
    by (simp_all add: G_def LEVELS_9 cadence_def)
  have c: "1 / 2 \<le> cadence (LEVELS ! 9)"
    by (rule cadence_ge_half) (simp_all add: LEVELS_9)
  have el: "elapsed_time G (1 / 4) = 1 / 4" "adjusted_time G (1 / 4) = 1 / 4"
    by (simp_all add: elapsed_time_def adjusted_time_def f float_ops)
  have rem: "\<not> fsub (float_of_int (lv_time (LEVELS ! 9))) (elapsed_time G (1 / 4)) \<le> 0"
    by (simp add: el LEVELS_9 float_ops)
  have rem10: "\<not> fsub (float_of_int (lv_time (LEVELS ! 9))) (elapsed_time G (1 / 4)) \<le> 10"
    by (simp add: el LEVELS_9 float_ops)
  have nz: "apple_spawn_interval G \<noteq> 0" using c by (simp add: f)
  have "1 / 4 / cadence (LEVELS ! 9) \<le> 1 / 2" using c by (simp add: field_simps)
  then have "float_round (1 / 4 / cadence (LEVELS ! 9)) \<le> float_round (1 / 2)" by (rule float_round_mono)
  then have up: "fdiv (1 / 4) (cadence (LEVELS ! 9)) \<le> 1 / 2" by (simp add: fdiv_def)
  have lo: "0 \<le> fdiv (1 / 4) (cadence (LEVELS ! 9))" using c by (intro fdiv_nonneg) simp_all
  from lo up have "\<lfloor>fdiv (1 / 4) (cadence (LEVELS ! 9))\<rfloor> = 0" by (simp add: floor_eq_iff)
  with lo have "py_int (fdiv (1 / 4) (cadence (LEVELS ! 9))) = 0" by (simp add: py_int_def)
  moreover have "lv_apples (LEVELS ! 9) = 35" by (simp add: LEVELS_9)
  ultimately have n: "nat (min (py_int (fdiv (elapsed_time G (1 / 4)) (apple_spawn_interval G)) + 1)
      (lv_apples (LEVELS ! 9))) = 1"
    by (simp add: el f)
  have sp: "SPEEDS (lv_speed (LEVELS ! 9)) = 90" by (simp add: LEVELS_9)
  have tick: "update_playing (always Bottom) G (1 / 4) =
      Some (Inr (G\<lparr>apples := [(Apple Bottom 90 0)\<lparr>pos_x := 63, pos_y := 81 / 2\<rparr>]\<rparr>))"
    unfolding update_playing_running[OF f(1) rem nz] n using rem10
    by (simp add: f(3,4) el sp always_def update_Bottom_late float_ops)
  have run: "play_ticks (always Bottom) G [1 / 4] =
      Some (Inr (G\<lparr>apples := [(Apple Bottom 90 0)\<lparr>pos_x := 63, pos_y := 81 / 2\<rparr>]\<rparr>))"
    by (simp add: tick)
  have "apples (G\<lparr>apples := [(Apple Bottom 90 0)\<lparr>pos_x := 63, pos_y := 81 / 2\<rparr>]\<rparr>) =
      [(Apple Bottom 90 0)\<lparr>pos_x := 63, pos_y := 81 / 2\<rparr>]"
    by simp
  with st run show ?thesis by blast
qed

end
